theory Spec2Isabelle
  imports Complex_Main "HOL-Library.Signed_Division"
begin

section \<open>The NURBS evaluation kernel: embedding\<close>

text \<open>
  The kernel is the C++ of \<^verbatim>\<open>low_level_functions.cc\<close> and \<^verbatim>\<open>nrbsurfderiveval.cc\<close>.
  The embedding keeps its functions, their names and their loops.

  \<^item> A \<^verbatim>\<open>double\<close> is a \<open>real\<close>: arithmetic is exact, rounding is not part of the model.
    A division whose divisor is zero would leave the reals (the code gets an infinity
    or a NaN), so it is the outcome \<open>Fault ZeroDivide\<close>.
  \<^item> An \<^verbatim>\<open>int\<close> or \<^verbatim>\<open>octave_idx_type\<close> is an \<open>int\<close>. The one sum that can exceed
    the 32-bit range while all indices are in range, \<^verbatim>\<open>low + high\<close> of the binary
    search, is checked: leaving the range is \<open>Fault IntOverflow\<close>.
  \<^item> The element access of an Octave array, \<^verbatim>\<open>U(i)\<close>, is unchecked. An access outside
    the array is undefined behaviour in C++ and the outcome \<open>Fault OutOfBounds\<close> here.
  \<^item> \<^verbatim>\<open>error (...)\<close> is the outcome \<open>Fault InconsistentData\<close>.
  \<^item> A loop that may run forever returns an \<open>option\<close>: \<open>None\<close> is "does not return".
\<close>

subsection \<open>Outcomes\<close>

datatype fault = InconsistentData | OutOfBounds | IntOverflow | ZeroDivide

datatype 'a result = Ok 'a | Fault fault

definition and_then :: "'a result \<Rightarrow> ('a \<Rightarrow> 'b result) \<Rightarrow> 'b result" where
  "and_then m f = (case m of Fault e \<Rightarrow> Fault e | Ok x \<Rightarrow> f x)"

definition fdiv :: "real \<Rightarrow> real \<Rightarrow> real result" where
  "fdiv a b = (if b = 0 then Fault ZeroDivide else Ok (a / b))"

definition INT_MAX :: int where
  "INT_MAX = 2147483647"

definition INT_MIN :: int where
  "INT_MIN = - 2147483648"

subsection \<open>Row vectors and matrices\<close>

text \<open>
  A \<^verbatim>\<open>RowVector\<close> is the list of its elements. A \<^verbatim>\<open>Matrix\<close> has its dimensions and its
  elements in column-major order, as Octave stores them: \<^verbatim>\<open>M(i,j)\<close> is element
  \<open>i + rows * j\<close> of the data and \<^verbatim>\<open>M(i)\<close> is element \<open>i\<close> of the data.

  What a constructor does with a negative dimension is decided by Octave, not by these
  sources. The model builds an empty array there, and no result below rests on it: each
  either assumes the dimensions it needs (a degree \<open>d \<ge> 0\<close>, at least one control point,
  at least two knots) or holds whatever the constructor does.
\<close>

type_synonym rowvector = "real list"

record matrix =
  mrows :: nat
  mcols :: nat
  mdata :: "real list"

definition elem :: "rowvector \<Rightarrow> int \<Rightarrow> real result" where
  "elem U i = (if 0 \<le> i \<and> i < int (length U) then Ok (U ! nat i) else Fault OutOfBounds)"

definition put :: "rowvector \<Rightarrow> int \<Rightarrow> real \<Rightarrow> rowvector result" where
  "put U i x = (if 0 \<le> i \<and> i < int (length U) then Ok (U[nat i := x]) else Fault OutOfBounds)"

definition new_matrix :: "int \<Rightarrow> int \<Rightarrow> real \<Rightarrow> matrix" where
  "new_matrix r c x = \<lparr>mrows = nat r, mcols = nat c, mdata = replicate (nat r * nat c) x\<rparr>"

definition mat_get :: "matrix \<Rightarrow> int \<Rightarrow> int \<Rightarrow> real result" where
  "mat_get M i j = elem (mdata M) (i + int (mrows M) * j)"

definition mat_get1 :: "matrix \<Rightarrow> int \<Rightarrow> real result" where
  "mat_get1 M i = elem (mdata M) i"

definition mat_put :: "matrix \<Rightarrow> int \<Rightarrow> int \<Rightarrow> real \<Rightarrow> matrix result" where
  "mat_put M i j x =
     and_then (put (mdata M) (i + int (mrows M) * j) x) (\<lambda>xs. Ok (M\<lparr>mdata := xs\<rparr>))"

subsection \<open>findspan\<close>

text \<open>
  \<^verbatim>\<open>mid = (low + high) / 2\<close>: C division truncates towards zero (\<open>sdiv\<close>).
\<close>

definition midpoint :: "int \<Rightarrow> int \<Rightarrow> int result" where
  "midpoint low high =
     (if low + high < INT_MIN \<or> INT_MAX < low + high then Fault IntOverflow
      else Ok ((low + high) sdiv 2))"

text \<open>
  The loop condition \<^verbatim>\<open>u < U(mid) || u >= U(mid+1)\<close>: the second element is read only
  when the first comparison fails.
\<close>

definition span_missed :: "rowvector \<Rightarrow> real \<Rightarrow> int \<Rightarrow> bool result" where
  "span_missed U u mid =
     (case elem U mid of
        Fault e \<Rightarrow> Fault e
      | Ok a \<Rightarrow> if u < a then Ok True
               else (case elem U (mid + 1) of Fault e \<Rightarrow> Fault e | Ok b \<Rightarrow> Ok (b \<le> u)))"

text \<open>
  The \<^verbatim>\<open>while\<close> loop of \<^verbatim>\<open>findspan\<close>. Each turn sets \<^verbatim>\<open>high = mid\<close> or \<^verbatim>\<open>low = mid\<close>
  and recomputes \<^verbatim>\<open>mid\<close>.
\<close>

partial_function (option) findspan_loop ::
  "rowvector \<Rightarrow> real \<Rightarrow> int \<Rightarrow> int \<Rightarrow> int \<Rightarrow> int result option" where
  "findspan_loop U u low high mid =
     (case span_missed U u mid of
        Fault e \<Rightarrow> Some (Fault e)
      | Ok again \<Rightarrow>
          if again
          then (case elem U mid of
                  Fault e \<Rightarrow> Some (Fault e)
                | Ok a \<Rightarrow>
                    if u < a
                    then (case midpoint low mid of
                            Fault e \<Rightarrow> Some (Fault e)
                          | Ok mid' \<Rightarrow> findspan_loop U u low mid mid')
                    else (case midpoint mid high of
                            Fault e \<Rightarrow> Some (Fault e)
                          | Ok mid' \<Rightarrow> findspan_loop U u mid high mid'))
          else Some (Ok mid))"

declare findspan_loop.simps [code]

definition findspan :: "int \<Rightarrow> int \<Rightarrow> real \<Rightarrow> rowvector \<Rightarrow> int result option" where
  "findspan n p u U =
     (case elem U (n + 1) of
        Fault e \<Rightarrow> Some (Fault e)
      | Ok b \<Rightarrow>
          if u = b then Some (Ok n)
          else (case midpoint p (n + 1) of
                  Fault e \<Rightarrow> Some (Fault e)
                | Ok mid \<Rightarrow> findspan_loop U u p (n + 1) mid))"

text \<open>What a run of the search can end with between \<open>low\<close> and \<open>high\<close>.\<close>

definition span_found :: "rowvector \<Rightarrow> real \<Rightarrow> int \<Rightarrow> int \<Rightarrow> int result \<Rightarrow> bool" where
  "span_found U u low high r =
     (case r of
        Ok s \<Rightarrow> low \<le> s \<and> s < high \<and> U ! nat s \<le> u \<and> u < U ! nat (s + 1)
      | Fault e \<Rightarrow> e = IntOverflow \<and> 1073741824 < high)"

text \<open>The state the search reaches, and never leaves, on the knots 0, 1, 2, 3, 4 at 1/2.\<close>

definition stuck_state :: "rowvector \<Rightarrow> real \<Rightarrow> int \<Rightarrow> int \<Rightarrow> int \<Rightarrow> bool" where
  "stuck_state U u low high mid =
     (U = [0, 1, 2, 3, 4] \<and> u = 1 / 2 \<and> low = 1 \<and> high = 1 \<and> mid = 1)"

subsection \<open>basisfun\<close>

text \<open>
  The scratch buffers \<^verbatim>\<open>left\<close> and \<^verbatim>\<open>right\<close> are functions from the index to the value.
  They have \<open>p + 1\<close> cells, are written at \<open>j\<close> and read at \<open>j - r\<close> and \<open>r + 1\<close> with
  \<open>0 \<le> r < j \<le> p\<close>, so every read is of a cell written before; what they hold at the
  start is never read.

  \<open>basisfun_inner\<close> is the loop over \<open>r\<close>, \<open>basisfun_outer\<close> the loop over \<open>j\<close>. The
  vector \<open>N\<close> is the caller's and is updated in place: the model takes it and returns it.
\<close>

function basisfun_inner ::
  "int \<Rightarrow> (int \<Rightarrow> real) \<Rightarrow> (int \<Rightarrow> real) \<Rightarrow> int \<Rightarrow> real \<Rightarrow> rowvector
   \<Rightarrow> (real \<times> rowvector) result" where
  "basisfun_inner j left right r saved N =
     (if r < j
      then and_then (elem N r) (\<lambda>Nr.
           and_then (fdiv Nr (right (r + 1) + left (j - r))) (\<lambda>temp.
           and_then (put N r (saved + right (r + 1) * temp)) (\<lambda>N'.
           basisfun_inner j left right (r + 1) (left (j - r) * temp) N')))
      else Ok (saved, N))"
  by pat_completeness auto
termination
  by (relation "measure (\<lambda>(j, left, right, r, saved, N). nat (j - r))") auto

declare basisfun_inner.simps [simp del]

function basisfun_outer ::
  "int \<Rightarrow> real \<Rightarrow> int \<Rightarrow> rowvector \<Rightarrow> int \<Rightarrow> (int \<Rightarrow> real) \<Rightarrow> (int \<Rightarrow> real) \<Rightarrow> rowvector
   \<Rightarrow> rowvector result" where
  "basisfun_outer i u p U j left right N =
     (if j \<le> p
      then and_then (elem U (i + 1 - j)) (\<lambda>a.
           and_then (elem U (i + j)) (\<lambda>b.
           and_then (basisfun_inner j (left(j := u - a)) (right(j := b - u)) 0 0 N)
             (\<lambda>(saved, N').
           and_then (put N' j saved) (\<lambda>N''.
           basisfun_outer i u p U (j + 1) (left(j := u - a)) (right(j := b - u)) N''))))
      else Ok N)"
  by pat_completeness auto
termination
  by (relation "measure (\<lambda>(i, u, p, U, j, left, right, N). nat (p + 1 - j))") auto

declare basisfun_outer.simps [simp del]

definition basisfun :: "int \<Rightarrow> real \<Rightarrow> int \<Rightarrow> rowvector \<Rightarrow> rowvector \<Rightarrow> rowvector result" where
  "basisfun i u p U N =
     and_then (put N 0 1) (\<lambda>N'. basisfun_outer i u p U 1 (\<lambda>k. 0) (\<lambda>k. 0) N')"

subsection \<open>bspeval\<close>

text \<open>
  \<open>bspeval_sum\<close> is the loop over \<open>i\<close> that accumulates \<^verbatim>\<open>tmp2\<close>, \<open>bspeval_rows\<close> the
  loop over the rows of one sample, \<open>bspeval_cols\<close> the loop over the samples. The
  samples \<open>u\<close> are a row of reals. \<open>N\<close> is allocated once and handed from sample to
  sample. \<^verbatim>\<open>error\<close> is called before any sample is looked at.
\<close>

function bspeval_sum ::
  "rowvector \<Rightarrow> matrix \<Rightarrow> int \<Rightarrow> int \<Rightarrow> int \<Rightarrow> int \<Rightarrow> real \<Rightarrow> real result" where
  "bspeval_sum N c row tmp1 d i tmp2 =
     (if i \<le> d
      then and_then (elem N i) (\<lambda>Ni.
           and_then (mat_get c row (tmp1 + i)) (\<lambda>x.
           bspeval_sum N c row tmp1 d (i + 1) (tmp2 + Ni * x)))
      else Ok tmp2)"
  by pat_completeness auto
termination
  by (relation "measure (\<lambda>(N, c, row, tmp1, d, i, tmp2). nat (d + 1 - i))") auto

declare bspeval_sum.simps [simp del]

function bspeval_rows ::
  "rowvector \<Rightarrow> matrix \<Rightarrow> int \<Rightarrow> int \<Rightarrow> int \<Rightarrow> int \<Rightarrow> matrix \<Rightarrow> matrix result" where
  "bspeval_rows N c tmp1 d col row p =
     (if row < int (mrows c)
      then and_then (bspeval_sum N c row tmp1 d 0 0) (\<lambda>tmp2.
           and_then (mat_put p row col tmp2) (\<lambda>p'.
           bspeval_rows N c tmp1 d col (row + 1) p'))
      else Ok p)"
  by pat_completeness auto
termination
  by (relation "measure (\<lambda>(N, c, tmp1, d, col, row, p). nat (int (mrows c) - row))") auto

declare bspeval_rows.simps [simp del]

function bspeval_cols ::
  "int \<Rightarrow> matrix \<Rightarrow> rowvector \<Rightarrow> rowvector \<Rightarrow> int \<Rightarrow> rowvector \<Rightarrow> matrix
   \<Rightarrow> matrix result option" where
  "bspeval_cols d c k u col N p =
     (if col < int (length u)
      then (case elem u col of
              Fault e \<Rightarrow> Some (Fault e)
            | Ok x \<Rightarrow>
                (case findspan (int (mcols c) - 1) d x k of
                   None \<Rightarrow> None
                 | Some (Fault e) \<Rightarrow> Some (Fault e)
                 | Some (Ok s) \<Rightarrow>
                     (case basisfun s x d k N of
                        Fault e \<Rightarrow> Some (Fault e)
                      | Ok N' \<Rightarrow>
                          (case bspeval_rows N' c (s - d) d col 0 p of
                             Fault e \<Rightarrow> Some (Fault e)
                           | Ok p' \<Rightarrow> bspeval_cols d c k u (col + 1) N' p'))))
      else Some (Ok p))"
  by pat_completeness auto
termination
  by (relation "measure (\<lambda>(d, c, k, u, col, N, p). nat (int (length u) - col))") auto

declare bspeval_cols.simps [simp del]

definition bspeval :: "int \<Rightarrow> matrix \<Rightarrow> rowvector \<Rightarrow> rowvector \<Rightarrow> matrix result option" where
  "bspeval d c k u =
     (let nu = int (length u); mc = int (mrows c); nc = int (mcols c);
          p = new_matrix mc nu 0;
          N = replicate (nat (d + 1)) 0
      in if nc + d = int (length k) - 1
         then bspeval_cols d c k u 0 N p
         else Some (Fault InconsistentData))"

text \<open>Element \<open>(i, j)\<close> of a matrix whose data has \<open>rows * cols\<close> elements.\<close>

definition mat_at :: "matrix \<Rightarrow> nat \<Rightarrow> nat \<Rightarrow> real" where
  "mat_at M i j = mdata M ! (i + mrows M * j)"

definition wf_matrix :: "matrix \<Rightarrow> bool" where
  "wf_matrix M = (length (mdata M) = mrows M * mcols M)"

text \<open>
  Predicates of the proofs about \<open>bspeval\<close>: two runs of the inner loop of \<open>basisfun\<close>
  that end alike, a matrix with one element replaced, and a column of the result that
  holds the evaluated point of a sample.
\<close>

definition same_run ::
  "nat \<Rightarrow> rowvector \<Rightarrow> rowvector \<Rightarrow> (real \<times> rowvector) result \<Rightarrow> (real \<times> rowvector) result \<Rightarrow> bool" where
  "same_run m N1 N2 A B =
     ((\<exists>e. A = Fault e \<and> B = Fault e) \<or>
      (\<exists>s M1 M2. A = Ok (s, M1) \<and> B = Ok (s, M2)
         \<and> length M1 = length N1 \<and> length M2 = length N2
         \<and> (\<forall>q<m. M1 ! q = M2 ! q)))"

definition mat_upd :: "matrix \<Rightarrow> nat \<Rightarrow> nat \<Rightarrow> real \<Rightarrow> matrix" where
  "mat_upd M i j x = M\<lparr>mdata := (mdata M)[i + mrows M * j := x]\<rparr>"

definition evaluated :: "int \<Rightarrow> matrix \<Rightarrow> rowvector \<Rightarrow> real \<Rightarrow> matrix \<Rightarrow> nat \<Rightarrow> bool" where
  "evaluated d c k x p col =
     (\<exists>s N. findspan (int (mcols c) - 1) d x k = Some (Ok s)
        \<and> basisfun s x d k (replicate (nat (d + 1)) 0) = Ok N
        \<and> (\<forall>row<mrows c.
              mat_at p row col = (\<Sum>i = 0..nat d. N ! i * mat_at c row (nat (s - d) + i))))"

subsection \<open>bspderiv\<close>

text \<open>
  \<open>bspderiv_rows\<close> is the loop over \<open>j\<close>, \<open>bspderiv_cols\<close> the loop over \<open>i\<close> that
  fills \<^verbatim>\<open>dc\<close>, \<open>bspderiv_knots\<close> the loop that fills \<^verbatim>\<open>dk\<close>. The call of
  \<^verbatim>\<open>bspderiv_bad_arguments\<close> is commented out in the source, so the body starts with the
  allocation of \<^verbatim>\<open>dc\<close> and \<^verbatim>\<open>dk\<close>. The second value is returned when \<^verbatim>\<open>nargout > 1\<close>.
\<close>

function bspderiv_rows :: "real \<Rightarrow> matrix \<Rightarrow> int \<Rightarrow> int \<Rightarrow> matrix \<Rightarrow> matrix result" where
  "bspderiv_rows tmp c i j dc =
     (if j \<le> int (mrows c) - 1
      then and_then (mat_get c j (i + 1)) (\<lambda>x.
           and_then (mat_get c j i) (\<lambda>y.
           and_then (mat_put dc j i (tmp * (x - y))) (\<lambda>dc'.
           bspderiv_rows tmp c i (j + 1) dc')))
      else Ok dc)"
  by pat_completeness auto
termination
  by (relation "measure (\<lambda>(tmp, c, i, j, dc). nat (int (mrows c) - j))") auto

declare bspderiv_rows.simps [simp del]

function bspderiv_cols :: "int \<Rightarrow> matrix \<Rightarrow> rowvector \<Rightarrow> int \<Rightarrow> matrix \<Rightarrow> matrix result" where
  "bspderiv_cols d c k i dc =
     (if i \<le> int (mcols c) - 2
      then and_then (elem k (i + d + 1)) (\<lambda>a.
           and_then (elem k (i + 1)) (\<lambda>b.
           and_then (fdiv (real_of_int d) (a - b)) (\<lambda>tmp.
           and_then (bspderiv_rows tmp c i 0 dc) (\<lambda>dc'.
           bspderiv_cols d c k (i + 1) dc'))))
      else Ok dc)"
  by pat_completeness auto
termination
  by (relation "measure (\<lambda>(d, c, k, i, dc). nat (int (mcols c) - 1 - i))") auto

declare bspderiv_cols.simps [simp del]

function bspderiv_knots :: "rowvector \<Rightarrow> int \<Rightarrow> rowvector \<Rightarrow> rowvector result" where
  "bspderiv_knots k i dk =
     (if i \<le> int (length k) - 2
      then and_then (elem k i) (\<lambda>x.
           and_then (put dk (i - 1) x) (\<lambda>dk'.
           bspderiv_knots k (i + 1) dk'))
      else Ok dk)"
  by pat_completeness auto
termination
  by (relation "measure (\<lambda>(k, i, dk). nat (int (length k) - 1 - i))") auto

declare bspderiv_knots.simps [simp del]

definition bspderiv ::
  "int \<Rightarrow> matrix \<Rightarrow> rowvector \<Rightarrow> int \<Rightarrow> (matrix \<times> rowvector option) result" where
  "bspderiv d c k nargout =
     (let mc = int (mrows c); nc = int (mcols c); nk = int (length k);
          dc = new_matrix mc (nc - 1) 0;
          dk = replicate (nat (nk - 2)) 0
      in and_then (bspderiv_cols d c k 0 dc) (\<lambda>dc'.
         and_then (bspderiv_knots k 1 dk) (\<lambda>dk'.
         Ok (dc', if 1 < nargout then Some dk' else None))))"

subsection \<open>gammaln, factln, bincoeff\<close>

text \<open>
  \<open>gammaln_series\<close> is the loop \<^verbatim>\<open>for (j=0; j<=5; j++) ser += cof[j]/++y\<close>. \<open>gammaln\<close> is
  only called by \<open>factln\<close>, with an argument of at least 2: there no divisor is zero,
  and the logarithm is the real logarithm \<open>ln\<close>.

  The two static variables of \<open>factln\<close>, \<^verbatim>\<open>ntop\<close> and the array \<^verbatim>\<open>a[101]\<close>, are the record
  \<open>cache\<close>, taken and returned by every call; \<open>cache0\<close> is their initial value.
  \<open>factln_fill\<close> is the \<^verbatim>\<open>while\<close> loop. The write \<^verbatim>\<open>a[ntop] = ...\<close> is unchecked in the
  source: a write at index 101 or more is \<open>Fault OutOfBounds\<close>. \<open>bincoeff\<close> calls
  \<open>factln\<close> three times, here from left to right (C++ leaves the order open; the cache
  that results and whether a call goes out of bounds do not depend on it).

  Both source files define \<open>gammaln\<close>, \<open>factln\<close> and \<open>bincoeff\<close>, with the same text;
  each copy has static variables of its own.
\<close>

definition cof :: "real list" where
  "cof = [76.18009172947146, - 86.50532032291677, 24.01409824083091, - 1.231739572450155,
          0.0012086650973866179, - 0.000005395239384953]"

function gammaln_series :: "int \<Rightarrow> real \<Rightarrow> real \<Rightarrow> real" where
  "gammaln_series j y ser =
     (if j \<le> 5 then gammaln_series (j + 1) (y + 1) (ser + cof ! nat j / (y + 1)) else ser)"
  by pat_completeness auto
termination
  by (relation "measure (\<lambda>(j, y, ser). nat (6 - j))") auto

declare gammaln_series.simps [simp del]

definition gammaln :: "real \<Rightarrow> real" where
  "gammaln xx =
     (let x = xx; y = xx;
          tmp = x + 5.5 - (x + 0.5) * ln (x + 5.5);
          ser = gammaln_series 0 y 1.000000000190015
      in - tmp + ln (2.5066282746310005 * ser / x))"

record cache =
  cache_ntop :: int
  cache_a :: "real list"

definition cache0 :: cache where
  "cache0 = \<lparr>cache_ntop = 0, cache_a = replicate 101 0\<rparr>"

function factln_fill :: "int \<Rightarrow> cache \<Rightarrow> cache result" where
  "factln_fill n c =
     (if cache_ntop c < n
      then and_then (put (cache_a c) (cache_ntop c + 1)
                       (gammaln (real_of_int (cache_ntop c + 1) + 1.0))) (\<lambda>a'.
           factln_fill n \<lparr>cache_ntop = cache_ntop c + 1, cache_a = a'\<rparr>)
      else Ok c)"
  by pat_completeness auto
termination
  by (relation "measure (\<lambda>(n, c). nat (n - cache_ntop c))") auto

declare factln_fill.simps [simp del]

definition factln :: "int \<Rightarrow> cache \<Rightarrow> (real \<times> cache) result" where
  "factln n c =
     (if n \<le> 1 then Ok (0, c)
      else and_then (factln_fill n c) (\<lambda>c'.
           and_then (elem (cache_a c') n) (\<lambda>x. Ok (x, c'))))"

definition bincoeff :: "int \<Rightarrow> int \<Rightarrow> cache \<Rightarrow> (real \<times> cache) result" where
  "bincoeff n k c =
     and_then (factln n c) (\<lambda>(fn, c1).
     and_then (factln k c1) (\<lambda>(fk, c2).
     and_then (factln (n - k) c2) (\<lambda>(fnk, c3).
     Ok (real_of_int \<lfloor>0.5 + exp (fn - fk - fnk)\<rfloor>, c3))))"

text \<open>The caches that calls of \<open>factln\<close> leave behind: 101 cells, \<open>0 \<le> ntop \<le> 100\<close>.\<close>

definition cache_ok :: "cache \<Rightarrow> bool" where
  "cache_ok c = (length (cache_a c) = 101 \<and> 0 \<le> cache_ntop c \<and> cache_ntop c \<le> 100)"

subsection \<open>nrbsurfderiveval: the unweighting loops\<close>

text \<open>
  The body of the loops over \<^verbatim>\<open>iu\<close> and \<^verbatim>\<open>idim\<close> of \<open>nrbsurfderiveval\<close>, from
  \<^verbatim>\<open>for (k = 0; k <= d; k++)\<close> on. \<^verbatim>\<open>surfderiveval\<close> is declared in a header that is not
  part of the sources; its results \<^verbatim>\<open>Aders\<close> and \<^verbatim>\<open>wders\<close> are parameters. The array
  \<^verbatim>\<open>skl\<close> is a function of the index \<^verbatim>\<open>(idim, k, l, iu)\<close>, and every index the loops use
  is inside the array that was allocated.

  \<open>skl_first_loop\<close> is the first loop over \<open>j\<close>: it reads \<^verbatim>\<open>skl\<close> at \<open>(idim, k, l, iu)\<close>, as
  the source sets \<^verbatim>\<open>idxta\<close>. \<open>skl_v2_loop\<close> is the loop that accumulates \<^verbatim>\<open>v2\<close>: it reads
  \<^verbatim>\<open>wders(i)\<close>, with one index. \<open>skl_i_loop\<close> is the loop over \<open>i\<close>, \<open>skl_l_loop\<close> the
  loop over \<open>l\<close> and \<open>skl_k_loop\<close> the loop over \<open>k\<close>.
\<close>

type_synonym tensor = "int \<times> int \<times> int \<times> int \<Rightarrow> real"

function skl_first_loop ::
  "int \<Rightarrow> int \<Rightarrow> int \<Rightarrow> int \<Rightarrow> matrix \<Rightarrow> tensor \<Rightarrow> int \<Rightarrow> real \<Rightarrow> cache
   \<Rightarrow> (real \<times> cache) result" where
  "skl_first_loop idim iu k l wders skl j v c =
     (if j \<le> l
      then and_then (bincoeff l j c) (\<lambda>(b, c').
           and_then (mat_get wders 0 j) (\<lambda>w.
           skl_first_loop idim iu k l wders skl (j + 1) (v - b * w * skl (idim, k, l, iu)) c'))
      else Ok (v, c))"
  by pat_completeness auto
termination
  by (relation "measure (\<lambda>(idim, iu, k, l, wders, skl, j, v, c). nat (l + 1 - j))") auto

declare skl_first_loop.simps [simp del]

function skl_v2_loop ::
  "int \<Rightarrow> matrix \<Rightarrow> int \<Rightarrow> int \<Rightarrow> real \<Rightarrow> cache \<Rightarrow> (real \<times> cache) result" where
  "skl_v2_loop l wders i j v2 c =
     (if j \<le> l
      then and_then (bincoeff l j c) (\<lambda>(b, c').
           and_then (mat_get1 wders i) (\<lambda>w.
           skl_v2_loop l wders i (j + 1) (v2 + b * w) c'))
      else Ok (v2, c))"
  by pat_completeness auto
termination
  by (relation "measure (\<lambda>(l, wders, i, j, v2, c). nat (l + 1 - j))") auto

declare skl_v2_loop.simps [simp del]

function skl_i_loop ::
  "int \<Rightarrow> int \<Rightarrow> int \<Rightarrow> int \<Rightarrow> matrix \<Rightarrow> tensor \<Rightarrow> int \<Rightarrow> real \<Rightarrow> cache
   \<Rightarrow> (real \<times> cache) result" where
  "skl_i_loop idim iu k l wders skl i v c =
     (if i \<le> k
      then and_then (bincoeff k i c) (\<lambda>(b, c1).
           and_then (mat_get wders i 0) (\<lambda>w.
           and_then (skl_v2_loop l wders i 1 0 c1) (\<lambda>(v2, c2).
           and_then (bincoeff k i c2) (\<lambda>(b', c3).
           skl_i_loop idim iu k l wders skl (i + 1)
             (v - b * w * skl (idim, k - i, l, iu) - b' * v2) c3))))
      else Ok (v, c))"
  by pat_completeness auto
termination
  by (relation "measure (\<lambda>(idim, iu, k, l, wders, skl, i, v, c). nat (k + 1 - i))") auto

declare skl_i_loop.simps [simp del]

function skl_l_loop ::
  "int \<Rightarrow> int \<Rightarrow> int \<Rightarrow> matrix \<Rightarrow> matrix \<Rightarrow> int \<Rightarrow> int \<Rightarrow> tensor \<Rightarrow> cache
   \<Rightarrow> (tensor \<times> cache) result" where
  "skl_l_loop idim iu d Aders wders k l skl c =
     (if l \<le> d - k
      then and_then (mat_get Aders k l) (\<lambda>v0.
           and_then (skl_first_loop idim iu k l wders skl 1 v0 c) (\<lambda>(v1, c1).
           and_then (skl_i_loop idim iu k l wders skl 1 v1 c1) (\<lambda>(v, c2).
           and_then (mat_get wders 0 0) (\<lambda>w00.
           and_then (fdiv v w00) (\<lambda>x.
           skl_l_loop idim iu d Aders wders k (l + 1) (skl((idim, k, l, iu) := x)) c2)))))
      else Ok (skl, c))"
  by pat_completeness auto
termination
  by (relation "measure (\<lambda>(idim, iu, d, Aders, wders, k, l, skl, c). nat (d - k + 1 - l))") auto

declare skl_l_loop.simps [simp del]

function skl_k_loop ::
  "int \<Rightarrow> int \<Rightarrow> int \<Rightarrow> matrix \<Rightarrow> matrix \<Rightarrow> int \<Rightarrow> tensor \<Rightarrow> cache
   \<Rightarrow> (tensor \<times> cache) result" where
  "skl_k_loop idim iu d Aders wders k skl c =
     (if k \<le> d
      then and_then (skl_l_loop idim iu d Aders wders k 0 skl c) (\<lambda>(skl', c').
           skl_k_loop idim iu d Aders wders (k + 1) skl' c')
      else Ok (skl, c))"
  by pat_completeness auto
termination
  by (relation "measure (\<lambda>(idim, iu, d, Aders, wders, k, skl, c). nat (d + 1 - k))") auto

declare skl_k_loop.simps [simp del]

text \<open>
  The formula of the specification (section 4.6), for comparison with the loops:
  \<open>spec_cross_term\<close> is \<open>v2 = \<Sum>j = 1..l. binom(l,j) * wders[r][j]\<close>, and
  \<open>spec_unweighted_entry\<close> is the entry \<open>skl[k][l]\<close> the formula gives from the entries
  \<open>S\<close> of lower order.
\<close>

definition spec_cross_term :: "matrix \<Rightarrow> nat \<Rightarrow> nat \<Rightarrow> real" where
  "spec_cross_term wders r l = (\<Sum>j = 1..l. real (l choose j) * mat_at wders r j)"

definition spec_unweighted_entry ::
  "matrix \<Rightarrow> matrix \<Rightarrow> (nat \<Rightarrow> nat \<Rightarrow> real) \<Rightarrow> nat \<Rightarrow> nat \<Rightarrow> real" where
  "spec_unweighted_entry Aders wders S k l =
     (mat_at Aders k l
        - (\<Sum>j = 1..l. real (l choose j) * mat_at wders 0 j * S k (l - j))
        - (\<Sum>r = 1..k. real (k choose r) * mat_at wders r 0 * S (k - r) l
                        + real (k choose r) * spec_cross_term wders r l))
     / mat_at wders 0 0"

section \<open>findspan: termination and the span found\<close>

lemma elem_in: "0 \<le> i \<Longrightarrow> i < int (length U) \<Longrightarrow> elem U i = Ok (U ! nat i)"
  by (simp add: elem_def)

lemma sdiv2_nonneg: "0 \<le> x \<Longrightarrow> x sdiv 2 = x div (2::int)"
  by (simp add: signed_divide_int_def sgn_if)

lemma midpoint_cases:
  assumes "0 \<le> low" "0 \<le> high"
  shows "midpoint low high =
    (if low + high \<le> INT_MAX then Ok ((low + high) div 2) else Fault IntOverflow)"
  using assms by (simp add: midpoint_def sdiv2_nonneg INT_MIN_def)

lemma span_found_mono:
  "span_found U u low high r \<Longrightarrow> low' \<le> low \<Longrightarrow> high \<le> high' \<Longrightarrow>
   span_found U u low' high' r"
  by (auto simp: span_found_def split: result.splits)

lemma findspan_loop_returns:
  assumes "0 \<le> low" "low < high" "high < int (length U)"
    and "U ! nat low \<le> u" "u < U ! nat high"
    and "midpoint low high = Ok mid"
  shows "\<exists>r. findspan_loop U u low high mid = Some r \<and> span_found U u low high r"
  using assms
proof (induction "nat (high - low)" arbitrary: low high mid rule: less_induct)
  case less
  have mid: "mid = (low + high) div 2"
    using less.prems midpoint_cases [of low high] by (auto split: if_splits)
  then have bounds: "low \<le> mid" "mid < high" using less.prems by auto
  have small: "low + high \<le> INT_MAX"
    using less.prems midpoint_cases [of low high] by (auto split: if_splits)
  have em: "elem U mid = Ok (U ! nat mid)"
    using bounds less.prems by (simp add: elem_in)
  have em1: "elem U (mid + 1) = Ok (U ! nat (mid + 1))"
    using bounds less.prems by (simp add: elem_in)
  show ?case
  proof (cases "u < U ! nat mid")
    case True
    then have lm: "low < mid" using less.prems(4) bounds by (cases "low = mid") auto
    have "midpoint low mid = Ok ((low + mid) div 2)"
      using midpoint_cases [of low mid] small bounds less.prems by auto
    moreover from this obtain r
      where r: "findspan_loop U u low mid ((low + mid) div 2) = Some r"
        "span_found U u low mid r"
      using less.hyps [of mid low "(low + mid) div 2"] less.prems lm bounds True by auto
    moreover have "span_found U u low high r"
      using r(2) bounds by (auto intro: span_found_mono)
    ultimately show ?thesis using True em
      by (subst findspan_loop.simps) (simp add: span_missed_def)
  next
    case False
    show ?thesis
    proof (cases "U ! nat (mid + 1) \<le> u")
      case up: True
      then have "mid + 1 \<noteq> high" using less.prems(5) by auto
      then have mh: "mid + 1 < high" using bounds by auto
      then have lm: "low < mid" using mid by auto
      show ?thesis
      proof (cases "mid + high \<le> INT_MAX")
        case ov: False
        then have "midpoint mid high = Fault IntOverflow"
          using midpoint_cases [of mid high] bounds less.prems by auto
        moreover have "1073741824 < high" using ov bounds by (simp add: INT_MAX_def)
        ultimately show ?thesis using False up em em1
          by (subst findspan_loop.simps) (simp add: span_missed_def span_found_def)
      next
        case True
        then have mp: "midpoint mid high = Ok ((mid + high) div 2)"
          using midpoint_cases [of mid high] bounds less.prems by auto
        have "U ! nat mid \<le> u" using False by simp
        then obtain r
          where r: "findspan_loop U u mid high ((mid + high) div 2) = Some r"
            "span_found U u mid high r"
          using less.hyps [of high mid "(mid + high) div 2"] less.prems lm bounds mp by auto
        moreover have "span_found U u low high r"
          using r(2) bounds by (auto intro: span_found_mono)
        ultimately show ?thesis using False up em em1 mp
          by (subst findspan_loop.simps) (simp add: span_missed_def)
      qed
    next
      case down: False
      then show ?thesis using False em em1 bounds
        by (subst findspan_loop.simps) (auto simp add: span_missed_def span_found_def)
    qed
  qed
qed

lemma sorted_degree_below:
  assumes "sorted U" "0 \<le> p" "p < int (length U)" "U ! nat p \<le> u" "u < U ! nat (n + 1)"
  shows "p < n + 1"
proof (rule ccontr)
  assume "\<not> p < n + 1"
  then have "nat (n + 1) \<le> nat p" by simp
  then have "U ! nat (n + 1) \<le> U ! nat p"
    using assms by (intro sorted_nth_mono) auto
  then show False using assms by simp
qed

lemma findspan_returns:
  assumes "0 \<le> p" "p < n + 1" "n + 1 < int (length U)"
    and "U ! nat p \<le> u" "u < U ! nat (n + 1)"
  shows "\<exists>r. findspan n p u U = Some r \<and> span_found U u p (n + 1) r"
proof -
  have e: "elem U (n + 1) = Ok (U ! nat (n + 1))"
    using assms by (simp add: elem_in)
  show ?thesis
  proof (cases "p + (n + 1) \<le> INT_MAX")
    case True
    then have "midpoint p (n + 1) = Ok ((p + (n + 1)) div 2)"
      using midpoint_cases [of p "n + 1"] assms by auto
    then show ?thesis
      using findspan_loop_returns [of p "n + 1" U u "(p + (n + 1)) div 2"] assms e
      by (simp add: findspan_def)
  next
    case False
    then have "midpoint p (n + 1) = Fault IntOverflow"
      using midpoint_cases [of p "n + 1"] assms by auto
    moreover have "1073741824 < n + 1" using False assms by (simp add: INT_MAX_def)
    ultimately show ?thesis using assms e by (simp add: findspan_def span_found_def)
  qed
qed

lemma findspan_loop_stuck:
  "findspan_loop [0, 1, 2, 3, 4] (1 / 2) 1 1 1 = None"
proof -
  have "\<not> stuck_state U u low high mid"
    if "findspan_loop U u low high mid = Some y" for U u low high mid y
  proof (rule findspan_loop.raw_induct
      [where P = "\<lambda>U u low high mid y. \<not> stuck_state U u low high mid", OF _ that])
    fix f :: "rowvector \<Rightarrow> real \<Rightarrow> int \<Rightarrow> int \<Rightarrow> int \<Rightarrow> int result option"
    fix U u low high mid and y :: "int result"
    assume IH: "\<And>U u low high mid y.
      f U u low high mid = Some y \<Longrightarrow> \<not> stuck_state U u low high mid"
    assume step: "(case span_missed U u mid of
        Fault e \<Rightarrow> Some (Fault e)
      | Ok again \<Rightarrow>
          if again
          then (case elem U mid of
                  Fault e \<Rightarrow> Some (Fault e)
                | Ok a \<Rightarrow>
                    if u < a
                    then (case midpoint low mid of
                            Fault e \<Rightarrow> Some (Fault e)
                          | Ok mid' \<Rightarrow> f U u low mid mid')
                    else (case midpoint mid high of
                            Fault e \<Rightarrow> Some (Fault e)
                          | Ok mid' \<Rightarrow> f U u mid high mid'))
          else Some (Ok mid)) = Some y"
    show "\<not> stuck_state U u low high mid"
    proof
      assume s: "stuck_state U u low high mid"
      then have eqs: "U = [0, 1, 2, 3, 4]" "u = 1 / 2" "low = 1" "high = 1" "mid = 1"
        unfolding stuck_state_def by blast+
      from step have "f U u low high mid = Some y"
        unfolding eqs
        by (simp add: span_missed_def elem_def midpoint_def INT_MAX_def INT_MIN_def)
      from IH [OF this] s show False by blast
    qed
  qed
  from this [of "[0, 1, 2, 3, 4]" "1 / 2" 1 1 1] show ?thesis
    by (cases "findspan_loop [0, 1, 2, 3, 4] (1 / 2) 1 1 1") (simp_all add: stuck_state_def)
qed

lemma findspan_in_domain:
  assumes "sorted U" "0 \<le> p" "0 \<le> n" "n < 1073741824" "p < int (length U)"
    and "n + 1 < int (length U)"
    and "U ! nat p \<le> u" "u \<le> U ! nat (n + 1)"
  shows "\<exists>s. findspan n p u U = Some (Ok s) \<and>
    (if u = U ! nat (n + 1) then s = n
     else p \<le> s \<and> s \<le> n \<and> U ! nat s \<le> u \<and> u < U ! nat (s + 1))"
proof (cases "u = U ! nat (n + 1)")
  case True
  then show ?thesis using assms by (simp add: findspan_def elem_in)
next
  case False
  then have lt: "u < U ! nat (n + 1)" using assms by simp
  have "p < n + 1"
    using assms lt by (intro sorted_degree_below [of U p u n]) auto
  then obtain r where r: "findspan n p u U = Some r" "span_found U u p (n + 1) r"
    using findspan_returns [of p n U u] assms lt by auto
  then show ?thesis
    using False assms(4) by (cases r) (auto simp: span_found_def)
qed

text \<open>
  On a clamped knot vector the first \<open>p + 1\<close> knots are equal, and the domain
  \<open>[U[p], U[n+1]]\<close> starts at \<open>U[0]\<close>.
\<close>

lemma findspan_clamped:
  assumes "sorted U" "0 \<le> p" "0 \<le> n" "n < 1073741824" "p < int (length U)"
    and "n + 1 < int (length U)"
    and "U ! 0 = U ! nat p"
    and "U ! 0 \<le> u" "u \<le> U ! nat (n + 1)"
  shows "\<exists>s. findspan n p u U = Some (Ok s) \<and>
    (if u = U ! nat (n + 1) then s = n
     else p \<le> s \<and> s \<le> n \<and> U ! nat s \<le> u \<and> u < U ! nat (s + 1))"
  using assms by (intro findspan_in_domain) auto

text \<open>
  The test of the source: \<open>n = 3\<close>, \<open>p = 2\<close>, knots 0, 0, 0, 1/2, 1, 1, 1 and ten samples
  from 0 to 1 give the spans 2, 2, 2, 2, 2, 3, 3, 3, 3, 3.
\<close>

lemma findspan_test_spans:
  "map (\<lambda>i. findspan 3 2 (real i / 9) [0, 0, 0, 1 / 2, 1, 1, 1]) [0..<10]
     = map (\<lambda>s. Some (Ok s)) [2, 2, 2, 2, 2, 3, 3, 3, 3, 3]"
  by (simp add: upt_rec findspan_def findspan_loop.simps elem_def midpoint_def span_missed_def
      INT_MAX_def INT_MIN_def)

text \<open>
  Claim C8. For a non-decreasing knot vector \<open>U\<close> (repeated knots allowed) and a
  parameter \<open>u\<close> with \<open>U[p] \<le> u < U[n+1]\<close>, the binary search of \<open>findspan\<close>
  terminates: \<open>findspan\<close> returns. What it returns is a span between \<open>p\<close> and \<open>n\<close>
  that holds \<open>u\<close>; only a knot vector of more than \<open>2^30\<close> entries can make the sum
  \<open>low + high\<close> leave the range of \<open>int\<close> instead.
\<close>

theorem findspan_terminates:
  assumes "sorted U" "0 \<le> p" "p < int (length U)" "n + 1 < int (length U)"
    and "U ! nat p \<le> u" "u < U ! nat (n + 1)"
  shows "\<exists>r. findspan n p u U = Some r \<and> span_found U u p (n + 1) r"
proof -
  have "p < n + 1"
    using assms by (intro sorted_degree_below [of U p u n]) auto
  then show ?thesis
    using assms by (intro findspan_returns) auto
qed

theorem findspan_terminates_witness:
  "sorted [0, 0, 0, 1 / 2, 1 / 2, 1, 1, 1 :: real] \<and> (0 :: int) \<le> 2
   \<and> (2 :: int) < int (length [0, 0, 0, 1 / 2, 1 / 2, 1, 1, 1 :: real])
   \<and> (4 :: int) + 1 < int (length [0, 0, 0, 1 / 2, 1 / 2, 1, 1, 1 :: real])
   \<and> [0, 0, 0, 1 / 2, 1 / 2, 1, 1, 1 :: real] ! nat 2 \<le> 1 / 2
   \<and> (1 / 2 :: real) < [0, 0, 0, 1 / 2, 1 / 2, 1, 1, 1] ! nat (4 + 1)
   \<and> (\<exists>r. findspan 4 2 (1 / 2) [0, 0, 0, 1 / 2, 1 / 2, 1, 1, 1] = Some r
        \<and> span_found [0, 0, 0, 1 / 2, 1 / 2, 1, 1, 1] (1 / 2) 2 (4 + 1) r)"
  using findspan_terminates [of "[0, 0, 0, 1 / 2, 1 / 2, 1, 1, 1]" 2 4 "1 / 2"]
  by (simp add: eval_nat_numeral)

text \<open>
  Claim C2, as stated: for \<open>U\<close> non-decreasing and \<open>U[0] \<le> u \<le> U[n+1]\<close>, \<open>findspan\<close>
  returns the span that holds \<open>u\<close>. The search starts at \<open>low = p\<close>, so on a knot vector
  whose first \<open>p + 1\<close> knots are not equal a parameter below \<open>U[p]\<close> is never found:
  with the knots 0, 1, 2, 3, 4, \<open>n = 2\<close>, \<open>p = 1\<close> and \<open>u = 1/2\<close> the loop reaches
  \<open>low = high = mid = 1\<close> and stays there.
\<close>

theorem findspan_below_degree_counterexample:
  "sorted [0, 1, 2, 3, 4 :: real]
   \<and> [0, 1, 2, 3, 4 :: real] ! 0 \<le> 1 / 2
   \<and> (1 / 2 :: real) \<le> [0, 1, 2, 3, 4] ! nat (2 + 1)
   \<and> findspan 2 1 (1 / 2) [0, 1, 2, 3, 4] = None"
  by (simp add: findspan_def findspan_loop.simps [of _ _ _ 3] findspan_loop.simps [of _ _ _ 2]
      findspan_loop_stuck span_missed_def elem_def midpoint_def INT_MAX_def INT_MIN_def
      eval_nat_numeral)

text \<open>
  Claim C2, amended: the domain starts at \<open>U[p]\<close>. For \<open>0 \<le> p\<close>, \<open>0 \<le> n < 2^30\<close>, a
  non-decreasing \<open>U\<close> of more than \<open>n + 1\<close> knots and \<open>U[p] \<le> u \<le> U[n+1]\<close>, \<open>findspan\<close>
  returns \<open>n\<close> when \<open>u = U[n+1]\<close>, and otherwise the span \<open>s\<close> with \<open>p \<le> s \<le> n\<close> and
  \<open>U[s] \<le> u < U[s+1]\<close>.
\<close>

theorem findspan_span:
  assumes "sorted U" "0 \<le> p" "0 \<le> n" "n < 1073741824" "p < int (length U)"
    and "n + 1 < int (length U)"
    and "U ! nat p \<le> u" "u \<le> U ! nat (n + 1)"
  shows "\<exists>s. findspan n p u U = Some (Ok s) \<and>
    (if u = U ! nat (n + 1) then s = n
     else p \<le> s \<and> s \<le> n \<and> U ! nat s \<le> u \<and> u < U ! nat (s + 1))"
  using assms by (rule findspan_in_domain)

theorem findspan_span_witness:
  "sorted [0, 0, 0, 1 / 2, 1, 1, 1 :: real] \<and> (0 :: int) \<le> 2 \<and> (0 :: int) \<le> 3
   \<and> (3 :: int) < 1073741824
   \<and> (2 :: int) < int (length [0, 0, 0, 1 / 2, 1, 1, 1 :: real])
   \<and> (3 :: int) + 1 < int (length [0, 0, 0, 1 / 2, 1, 1, 1 :: real])
   \<and> [0, 0, 0, 1 / 2, 1, 1, 1 :: real] ! nat 2 \<le> 1 / 3
   \<and> (1 / 3 :: real) \<le> [0, 0, 0, 1 / 2, 1, 1, 1] ! nat (3 + 1)
   \<and> (\<exists>s. findspan 3 2 (1 / 3) [0, 0, 0, 1 / 2, 1, 1, 1] = Some (Ok s)
        \<and> (if (1 / 3 :: real) = [0, 0, 0, 1 / 2, 1, 1, 1] ! nat (3 + 1) then s = 3
            else 2 \<le> s \<and> s \<le> 3 \<and> [0, 0, 0, 1 / 2, 1, 1, 1 :: real] ! nat s \<le> 1 / 3
              \<and> (1 / 3 :: real) < [0, 0, 0, 1 / 2, 1, 1, 1] ! nat (s + 1)))"
  using findspan_span [of "[0, 0, 0, 1 / 2, 1, 1, 1]" 2 3 "1 / 3"]
  by (simp add: eval_nat_numeral)

section \<open>basisfun: partition of unity\<close>

lemma and_then_Ok [simp]: "and_then (Ok x) f = f x"
  by (simp add: and_then_def)

lemma and_then_Fault [simp]: "and_then (Fault e) f = Fault e"
  by (simp add: and_then_def)

lemma put_in: "0 \<le> i \<Longrightarrow> i < int (length U) \<Longrightarrow> put U i x = Ok (U[nat i := x])"
  by (simp add: put_def)

lemma fdiv_nonzero: "b \<noteq> 0 \<Longrightarrow> fdiv a b = Ok (a / b)"
  by (simp add: fdiv_def)

lemma sum_update_below:
  fixes N :: "real list"
  assumes "r < j" "j \<le> length N"
  shows "(\<Sum>q<j. N[r := x] ! q) = (\<Sum>q<j. N ! q) - N ! r + x"
proof -
  have "(\<Sum>q<j. N[r := x] ! q) = (\<Sum>q\<in>{..<j} - {r}. N[r := x] ! q) + N[r := x] ! r"
    using assms by (subst sum.remove [of _ r]) auto
  also have "(\<Sum>q\<in>{..<j} - {r}. N[r := x] ! q) = (\<Sum>q\<in>{..<j} - {r}. N ! q)"
    by (intro sum.cong) auto
  also have "N[r := x] ! r = x" using assms by simp
  also have "(\<Sum>q\<in>{..<j} - {r}. N ! q) = (\<Sum>q<j. N ! q) - N ! r"
    using assms by (subst sum.remove [of "{..<j}" r]) auto
  finally show ?thesis .
qed

lemma basisfun_inner_ok:
  assumes "0 \<le> r" "r \<le> j" "nat j \<le> length N"
    and "\<And>q. r \<le> q \<Longrightarrow> q < j \<Longrightarrow>
           0 \<le> left (j - q) \<and> 0 \<le> right (q + 1) \<and> 0 < right (q + 1) + left (j - q)"
    and "0 \<le> saved" "\<And>q. q < nat j \<Longrightarrow> 0 \<le> N ! q"
  shows "\<exists>saved' N'. basisfun_inner j left right r saved N = Ok (saved', N')
           \<and> length N' = length N \<and> 0 \<le> saved'
           \<and> (\<forall>q<nat j. 0 \<le> N' ! q)
           \<and> (\<forall>q. nat j \<le> q \<longrightarrow> N' ! q = N ! q)
           \<and> saved' + (\<Sum>q<nat j. N' ! q) = saved + (\<Sum>q<nat j. N ! q)"
  using assms
proof (induction "nat (j - r)" arbitrary: r saved N rule: less_induct)
  case less
  show ?case
  proof (cases "r < j")
    case False
    then show ?thesis using less.prems by (subst basisfun_inner.simps) simp
  next
    case True
    define d where "d = right (r + 1) + left (j - r)"
    define temp where "temp = N ! nat r / d"
    define N1 where "N1 = N[nat r := saved + right (r + 1) * temp]"
    define saved1 where "saved1 = left (j - r) * temp"
    have rj: "nat r < nat j" using True less.prems by simp
    then have rl: "nat r < length N" using less.prems(3) by (rule less_le_trans)
    have pos: "0 \<le> left (j - r)" "0 \<le> right (r + 1)" "0 < d"
      using less.prems(4) [of r] True by (auto simp: d_def)
    have Nr: "0 \<le> N ! nat r" using less.prems(6) rj by simp
    then have temp0: "0 \<le> temp" using pos by (simp add: temp_def)
    have e: "elem N r = Ok (N ! nat r)"
      using True less.prems by (intro elem_in) auto
    have f: "fdiv (N ! nat r) d = Ok temp"
      using pos by (simp add: fdiv_def temp_def)
    have p: "put N r (saved + right (r + 1) * temp) = Ok N1"
      using True less.prems by (simp add: put_def N1_def)
    have step: "basisfun_inner j left right r saved N =
        basisfun_inner j left right (r + 1) saved1 N1"
      using True e f p by (subst basisfun_inner.simps) (simp add: d_def saved1_def)
    have len1: "length N1 = length N" by (simp add: N1_def)
    have nn1: "0 \<le> N1 ! q" if "q < nat j" for q
    proof (cases "q = nat r")
      case True
      then show ?thesis using rl less.prems(5) pos temp0 by (simp add: N1_def)
    next
      case False
      then show ?thesis using that less.prems(6) by (simp add: N1_def)
    qed
    have "\<exists>saved' N'. basisfun_inner j left right (r + 1) saved1 N1 = Ok (saved', N')
           \<and> length N' = length N1 \<and> 0 \<le> saved'
           \<and> (\<forall>q<nat j. 0 \<le> N' ! q)
           \<and> (\<forall>q. nat j \<le> q \<longrightarrow> N' ! q = N1 ! q)
           \<and> saved' + (\<Sum>q<nat j. N' ! q) = saved1 + (\<Sum>q<nat j. N1 ! q)"
    proof (rule less.hyps)
      show "nat (j - (r + 1)) < nat (j - r)" using True by simp
      show "0 \<le> r + 1" "r + 1 \<le> j" using True less.prems by auto
      show "nat j \<le> length N1" using less.prems len1 by simp
      show "0 \<le> saved1" using pos temp0 by (simp add: saved1_def)
      show "0 \<le> N1 ! q" if "q < nat j" for q using nn1 that .
      show "0 \<le> left (j - q) \<and> 0 \<le> right (q + 1) \<and> 0 < right (q + 1) + left (j - q)"
        if "r + 1 \<le> q" "q < j" for q
        using less.prems(4) [of q] that by simp
    qed
    then obtain saved' N' where res:
      "basisfun_inner j left right (r + 1) saved1 N1 = Ok (saved', N')"
      "length N' = length N1" "0 \<le> saved'" "\<forall>q<nat j. 0 \<le> N' ! q"
      "\<forall>q. nat j \<le> q \<longrightarrow> N' ! q = N1 ! q"
      "saved' + (\<Sum>q<nat j. N' ! q) = saved1 + (\<Sum>q<nat j. N1 ! q)"
      by blast
    have "(\<Sum>q<nat j. N1 ! q) = (\<Sum>q<nat j. N ! q) - N ! nat r + (saved + right (r + 1) * temp)"
      unfolding N1_def using rj less.prems(3) by (intro sum_update_below) auto
    moreover have "left (j - r) * temp + right (r + 1) * temp = N ! nat r"
    proof -
      have "left (j - r) * temp + right (r + 1) * temp = d * temp"
        by (simp add: d_def algebra_simps)
      also have "\<dots> = N ! nat r" using pos by (simp add: temp_def)
      finally show ?thesis .
    qed
    ultimately have total: "saved1 + (\<Sum>q<nat j. N1 ! q) = saved + (\<Sum>q<nat j. N ! q)"
      by (simp add: saved1_def)
    have keep: "N' ! q = N ! q" if "nat j \<le> q" for q
      using res(5) that rj by (simp add: N1_def)
    show ?thesis
      using step res(1-4) len1 total res(6) keep by auto
  qed
qed

lemma basisfun_outer_ok:
  assumes U: "sorted U" "0 \<le> i" "p \<le> i + 1" "i + 1 < int (length U)" "i + p < int (length U)"
    and u: "U ! nat i \<le> u" "u \<le> U ! nat (i + 1)" "U ! nat i < U ! nat (i + 1)"
    and j: "1 \<le> j" "j \<le> p + 1"
    and N: "length N = nat (p + 1)" "\<And>q. q < nat j \<Longrightarrow> 0 \<le> N ! q" "(\<Sum>q<nat j. N ! q) = 1"
    and buf: "\<And>k. 1 \<le> k \<Longrightarrow> k < j \<Longrightarrow>
               left k = u - U ! nat (i + 1 - k) \<and> right k = U ! nat (i + k) - u"
  shows "\<exists>N'. basisfun_outer i u p U j left right N = Ok N' \<and> length N' = length N
           \<and> (\<forall>q<length N'. 0 \<le> N' ! q) \<and> (\<Sum>q<length N'. N' ! q) = 1"
  using j N buf
proof (induction "nat (p + 1 - j)" arbitrary: j left right N rule: less_induct)
  case less
  show ?case
  proof (cases "j \<le> p")
    case False
    then have "nat j = length N" using less.prems by simp
    then show ?thesis
      using False less.prems by (subst basisfun_outer.simps) simp
  next
    case True
    define a where "a = U ! nat (i + 1 - j)"
    define b where "b = U ! nat (i + j)"
    define left' where "left' = left(j := u - a)"
    define right' where "right' = right(j := b - u)"
    have ea: "elem U (i + 1 - j) = Ok a"
      unfolding a_def using True U less.prems(1) by (intro elem_in) auto
    have eb: "elem U (i + j) = Ok b"
      unfolding b_def using True U less.prems(1) by (intro elem_in) auto
    have buf': "left' k = u - U ! nat (i + 1 - k) \<and> right' k = U ! nat (i + k) - u"
      if "1 \<le> k" "k < j + 1" for k
      using less.prems(6) [of k] that by (cases "k = j") (auto simp: left'_def right'_def a_def b_def)
    have below: "U ! nat (i + 1 - k) \<le> U ! nat i" if "1 \<le> k" for k
      using U that by (intro sorted_nth_mono) auto
    have above: "U ! nat (i + 1) \<le> U ! nat (i + k)" if "1 \<le> k" "k \<le> j" for k
      using U that True by (intro sorted_nth_mono) auto
    have pre: "0 \<le> left' (j - q) \<and> 0 \<le> right' (q + 1) \<and> 0 < right' (q + 1) + left' (j - q)"
      if "0 \<le> q" "q < j" for q
    proof -
      have l: "left' (j - q) = u - U ! nat (i + 1 - (j - q))"
        using buf' [of "j - q"] that by simp
      have r: "right' (q + 1) = U ! nat (i + (q + 1)) - u"
        using buf' [of "q + 1"] that by simp
      have "U ! nat (i + 1 - (j - q)) \<le> U ! nat i"
        using below [of "j - q"] that by simp
      moreover have "U ! nat (i + 1) \<le> U ! nat (i + (q + 1))"
        using above [of "q + 1"] that by simp
      ultimately show ?thesis using l r u by simp
    qed
    have "\<exists>saved' N'. basisfun_inner j left' right' 0 0 N = Ok (saved', N')
           \<and> length N' = length N \<and> 0 \<le> saved'
           \<and> (\<forall>q<nat j. 0 \<le> N' ! q)
           \<and> (\<forall>q. nat j \<le> q \<longrightarrow> N' ! q = N ! q)
           \<and> saved' + (\<Sum>q<nat j. N' ! q) = 0 + (\<Sum>q<nat j. N ! q)"
    proof (rule basisfun_inner_ok)
      show "(0::int) \<le> 0" "0 \<le> j" "(0::real) \<le> 0" using less.prems by auto
      show "nat j \<le> length N" using True less.prems by simp
      show "0 \<le> N ! q" if "q < nat j" for q using less.prems(4) that .
      show "0 \<le> left' (j - q) \<and> 0 \<le> right' (q + 1) \<and> 0 < right' (q + 1) + left' (j - q)"
        if "0 \<le> q" "q < j" for q using pre that .
    qed
    then obtain saved' N' where inner:
      "basisfun_inner j left' right' 0 0 N = Ok (saved', N')"
      "length N' = length N" "0 \<le> saved'" "\<forall>q<nat j. 0 \<le> N' ! q"
      "saved' + (\<Sum>q<nat j. N' ! q) = (\<Sum>q<nat j. N ! q)"
      by auto
    define N'' where "N'' = N'[nat j := saved']"
    have jl: "nat j < length N'" using True less.prems inner(2) by simp
    have pt: "put N' j saved' = Ok N''"
      using jl less.prems(1) by (simp add: put_def N''_def)
    have step: "basisfun_outer i u p U j left right N =
        basisfun_outer i u p U (j + 1) left' right' N''"
      using True ea eb inner(1) pt
      by (subst basisfun_outer.simps) (simp add: left'_def right'_def)
    have suc: "nat (j + 1) = Suc (nat j)" using less.prems(1) by simp
    have nn: "0 \<le> N'' ! q" if "q < nat (j + 1)" for q
      using that inner(3,4) jl unfolding suc N''_def by (cases "q = nat j") auto
    have "(\<Sum>q<nat j. N'' ! q) = (\<Sum>q<nat j. N' ! q)"
      unfolding N''_def by (intro sum.cong) auto
    then have total: "(\<Sum>q<nat (j + 1). N'' ! q) = 1"
      unfolding suc using inner(5) less.prems(5) jl by (simp add: N''_def)
    have "\<exists>N'. basisfun_outer i u p U (j + 1) left' right' N'' = Ok N' \<and> length N' = length N''
           \<and> (\<forall>q<length N'. 0 \<le> N' ! q) \<and> (\<Sum>q<length N'. N' ! q) = 1"
    proof (rule less.hyps)
      show "nat (p + 1 - (j + 1)) < nat (p + 1 - j)" using True by simp
      show "1 \<le> j + 1" "j + 1 \<le> p + 1" using True less.prems by auto
      show "length N'' = nat (p + 1)" using inner(2) less.prems by (simp add: N''_def)
      show "0 \<le> N'' ! q" if "q < nat (j + 1)" for q using nn that .
      show "(\<Sum>q<nat (j + 1). N'' ! q) = 1" using total .
      show "left' k = u - U ! nat (i + 1 - k) \<and> right' k = U ! nat (i + k) - u"
        if "1 \<le> k" "k < j + 1" for k using buf' that .
    qed
    then show ?thesis using step inner(2) by (auto simp: N''_def)
  qed
qed

lemma basisfun_returns:
  assumes "sorted U" "0 \<le> p" "p \<le> i + 1" "0 \<le> i" "i + 1 < int (length U)"
    and "i + p < int (length U)"
    and "U ! nat i \<le> u" "u \<le> U ! nat (i + 1)" "U ! nat i < U ! nat (i + 1)"
    and "length N = nat (p + 1)"
  shows "\<exists>N'. basisfun i u p U N = Ok N' \<and> length N' = nat (p + 1)
           \<and> (\<forall>q<length N'. 0 \<le> N' ! q) \<and> sum_list N' = 1"
proof -
  define N0 where "N0 = N[0 := 1]"
  have p0: "put N 0 1 = Ok N0" using assms by (simp add: put_def N0_def)
  have "\<exists>N'. basisfun_outer i u p U 1 (\<lambda>k. 0) (\<lambda>k. 0) N0 = Ok N' \<and> length N' = length N0
           \<and> (\<forall>q<length N'. 0 \<le> N' ! q) \<and> (\<Sum>q<length N'. N' ! q) = 1"
  proof (rule basisfun_outer_ok)
    show "sorted U" "0 \<le> i" "p \<le> i + 1" "i + 1 < int (length U)" "i + p < int (length U)"
      "U ! nat i \<le> u" "u \<le> U ! nat (i + 1)" "U ! nat i < U ! nat (i + 1)"
      using assms by auto
    show "(1::int) \<le> 1" "1 \<le> p + 1" using assms by auto
    show "length N0 = nat (p + 1)" using assms by (simp add: N0_def)
    show "0 \<le> N0 ! q" if "q < nat 1" for q using that assms by (simp add: N0_def)
    show "(\<Sum>q<nat 1. N0 ! q) = 1" using assms by (simp add: N0_def)
    show "(\<lambda>k. 0) k = u - U ! nat (i + 1 - k) \<and> (\<lambda>k. 0) k = U ! nat (i + k) - u"
      if "1 \<le> k" "k < 1" for k :: int using that by simp
  qed
  then obtain N' where "basisfun_outer i u p U 1 (\<lambda>k. 0) (\<lambda>k. 0) N0 = Ok N'"
    "length N' = length N0" "\<forall>q<length N'. 0 \<le> N' ! q" "(\<Sum>q<length N'. N' ! q) = 1"
    by blast
  moreover have "sum_list N' = (\<Sum>q<length N'. N' ! q)"
    by (simp add: sum_list_sum_nth lessThan_atLeast0)
  ultimately show ?thesis
    using p0 assms by (simp add: basisfun_def N0_def)
qed

text \<open>
  The test of the source, on the same knots: the basis functions at 0, at 1 and at 1/3
  (the reference values 0.11111, 0.66667, 0.22222).
\<close>

lemma basisfun_test_ends:
  "basisfun 2 0 2 [0, 0, 0, 1 / 2, 1, 1, 1] [0, 0, 0] = Ok [1, 0, 0]"
  "basisfun 3 1 2 [0, 0, 0, 1 / 2, 1, 1, 1] [0, 0, 0] = Ok [0, 0, 1]"
  "basisfun 2 (1 / 3) 2 [0, 0, 0, 1 / 2, 1, 1, 1] [0, 0, 0] = Ok [1 / 9, 2 / 3, 2 / 9]"
  by (simp_all add: basisfun_def basisfun_outer.simps basisfun_inner.simps elem_def put_def
      fdiv_def)

text \<open>
  Claim C7. Let \<open>U\<close> be non-decreasing, \<open>i\<close> a span with \<open>U[i] < U[i+1]\<close> (on a
  non-decreasing knot vector this is exactly: no denominator of the recurrence is zero),
  \<open>u\<close> in the span, \<open>U[i] \<le> u \<le> U[i+1]\<close>, and \<open>p \<ge> 0\<close> a degree whose knots
  \<open>U[i+1-p], ..., U[i+p]\<close> exist. Then \<open>basisfun\<close>, given a vector of \<open>p + 1\<close> entries,
  returns a vector of \<open>p + 1\<close> entries, all non-negative, that sum to 1. Arithmetic is
  exact in the model, so the sum is 1 and not only close to it.
\<close>

theorem basisfun_partition:
  assumes "sorted U" "0 \<le> p" "p \<le> i + 1" "0 \<le> i" "i + 1 < int (length U)"
    and "i + p < int (length U)"
    and "U ! nat i \<le> u" "u \<le> U ! nat (i + 1)" "U ! nat i < U ! nat (i + 1)"
    and "length N = nat (p + 1)"
  shows "\<exists>N'. basisfun i u p U N = Ok N' \<and> length N' = nat (p + 1)
           \<and> (\<forall>q<length N'. 0 \<le> N' ! q) \<and> sum_list N' = 1"
  using assms by (rule basisfun_returns)

theorem basisfun_partition_witness:
  "sorted [0, 0, 0, 1 / 2, 1, 1, 1 :: real] \<and> (0 :: int) \<le> 2 \<and> (2 :: int) \<le> 2 + 1
   \<and> (0 :: int) \<le> 2
   \<and> (2 :: int) + 1 < int (length [0, 0, 0, 1 / 2, 1, 1, 1 :: real])
   \<and> (2 :: int) + 2 < int (length [0, 0, 0, 1 / 2, 1, 1, 1 :: real])
   \<and> [0, 0, 0, 1 / 2, 1, 1, 1 :: real] ! nat 2 \<le> 1 / 3
   \<and> (1 / 3 :: real) \<le> [0, 0, 0, 1 / 2, 1, 1, 1] ! nat (2 + 1)
   \<and> [0, 0, 0, 1 / 2, 1, 1, 1 :: real] ! nat 2 < [0, 0, 0, 1 / 2, 1, 1, 1] ! nat (2 + 1)
   \<and> length [0, 0, 0 :: real] = nat (2 + 1)
   \<and> (\<exists>N'. basisfun 2 (1 / 3) 2 [0, 0, 0, 1 / 2, 1, 1, 1] [0, 0, 0] = Ok N'
        \<and> length N' = nat (2 + 1) \<and> (\<forall>q<length N'. 0 \<le> N' ! q) \<and> sum_list N' = 1)"
  using basisfun_partition [of "[0, 0, 0, 1 / 2, 1, 1, 1]" 2 2 "1 / 3" "[0, 0, 0]"]
  by (simp add: eval_nat_numeral)

section \<open>bspeval: the consistency check\<close>

lemma and_then_fault:
  "and_then m f = Fault e \<Longrightarrow> m = Fault e \<or> (\<exists>x. m = Ok x \<and> f x = Fault e)"
  by (cases m) simp_all

lemma elem_fault: "elem U i = Fault e \<Longrightarrow> e = OutOfBounds"
  by (simp add: elem_def split: if_splits)

lemma put_fault: "put U i x = Fault e \<Longrightarrow> e = OutOfBounds"
  by (simp add: put_def split: if_splits)

lemma fdiv_fault: "fdiv a b = Fault e \<Longrightarrow> e = ZeroDivide"
  by (simp add: fdiv_def split: if_splits)

lemma midpoint_fault: "midpoint low high = Fault e \<Longrightarrow> e = IntOverflow"
  by (simp add: midpoint_def split: if_splits)

lemma mat_get_fault: "mat_get M i j = Fault e \<Longrightarrow> e = OutOfBounds"
  by (simp add: mat_get_def elem_fault)

lemma mat_put_fault: "mat_put M i j x = Fault e \<Longrightarrow> e = OutOfBounds"
  by (auto simp: mat_put_def dest!: and_then_fault put_fault)

lemma span_missed_fault: "span_missed U u mid = Fault e \<Longrightarrow> e = OutOfBounds"
  by (auto simp: span_missed_def dest: elem_fault split: result.splits if_splits)

lemma findspan_loop_consistent:
  assumes "findspan_loop U u low high mid = Some r"
  shows "r \<noteq> Fault InconsistentData"
proof (rule findspan_loop.raw_induct
    [where P = "\<lambda>U u low high mid r. r \<noteq> Fault InconsistentData", OF _ assms])
  fix f :: "rowvector \<Rightarrow> real \<Rightarrow> int \<Rightarrow> int \<Rightarrow> int \<Rightarrow> int result option"
  fix U u low high mid and r :: "int result"
  assume IH: "\<And>U u low high mid r. f U u low high mid = Some r \<Longrightarrow> r \<noteq> Fault InconsistentData"
  assume step: "(case span_missed U u mid of
        Fault e \<Rightarrow> Some (Fault e)
      | Ok again \<Rightarrow>
          if again
          then (case elem U mid of
                  Fault e \<Rightarrow> Some (Fault e)
                | Ok a \<Rightarrow>
                    if u < a
                    then (case midpoint low mid of
                            Fault e \<Rightarrow> Some (Fault e)
                          | Ok mid' \<Rightarrow> f U u low mid mid')
                    else (case midpoint mid high of
                            Fault e \<Rightarrow> Some (Fault e)
                          | Ok mid' \<Rightarrow> f U u mid high mid'))
          else Some (Ok mid)) = Some r"
  then show "r \<noteq> Fault InconsistentData"
    by (auto split: result.splits if_splits
        dest: IH span_missed_fault elem_fault midpoint_fault)
qed

lemma findspan_consistent:
  "findspan n p u U = Some r \<Longrightarrow> r \<noteq> Fault InconsistentData"
  by (auto simp: findspan_def split: result.splits if_splits
      dest: findspan_loop_consistent elem_fault midpoint_fault)

lemma basisfun_inner_consistent:
  "basisfun_inner j left right r saved N \<noteq> Fault InconsistentData"
proof (induction j left right r saved N rule: basisfun_inner.induct)
  case (1 j left right r saved N)
  show ?case
  proof
    assume "basisfun_inner j left right r saved N = Fault InconsistentData"
    then show False
      using 1
      by (subst (asm) basisfun_inner.simps)
         (auto split: if_splits dest!: and_then_fault dest: elem_fault fdiv_fault put_fault)
  qed
qed

lemma basisfun_outer_consistent:
  "basisfun_outer i u p U j left right N \<noteq> Fault InconsistentData"
proof (induction i u p U j left right N rule: basisfun_outer.induct)
  case (1 i u p U j left right N)
  show ?case
  proof
    assume "basisfun_outer i u p U j left right N = Fault InconsistentData"
    then show False
      using 1 basisfun_inner_consistent
      by (subst (asm) basisfun_outer.simps)
         (auto simp del: fun_upd_apply split: if_splits prod.splits
               dest!: and_then_fault dest: elem_fault put_fault)
  qed
qed

lemma basisfun_consistent: "basisfun i u p U N \<noteq> Fault InconsistentData"
  using basisfun_outer_consistent
  by (auto simp: basisfun_def dest!: and_then_fault dest: put_fault)

lemma bspeval_sum_consistent:
  "bspeval_sum N c row tmp1 d i tmp2 \<noteq> Fault InconsistentData"
proof (induction N c row tmp1 d i tmp2 rule: bspeval_sum.induct)
  case (1 N c row tmp1 d i tmp2)
  show ?case
  proof
    assume "bspeval_sum N c row tmp1 d i tmp2 = Fault InconsistentData"
    then show False
      using 1
      by (subst (asm) bspeval_sum.simps)
         (auto split: if_splits dest!: and_then_fault dest: elem_fault mat_get_fault)
  qed
qed

lemma bspeval_rows_consistent:
  "bspeval_rows N c tmp1 d col row p \<noteq> Fault InconsistentData"
proof (induction N c tmp1 d col row p rule: bspeval_rows.induct)
  case (1 N c tmp1 d col row p)
  show ?case
  proof
    assume "bspeval_rows N c tmp1 d col row p = Fault InconsistentData"
    then show False
      using 1 bspeval_sum_consistent
      by (subst (asm) bspeval_rows.simps)
         (auto split: if_splits dest!: and_then_fault dest: mat_put_fault)
  qed
qed

lemma bspeval_cols_consistent:
  "bspeval_cols d c k u col N p \<noteq> Some (Fault InconsistentData)"
proof (induction d c k u col N p rule: bspeval_cols.induct)
  case (1 d c k u col N p)
  show ?case
  proof
    assume "bspeval_cols d c k u col N p = Some (Fault InconsistentData)"
    then show False
      using 1 basisfun_consistent bspeval_rows_consistent
      by (subst (asm) bspeval_cols.simps)
         (auto split: if_splits result.splits option.splits
               dest: elem_fault findspan_consistent)
  qed
qed

text \<open>
  Claim C3. For a degree \<open>d \<ge> 0\<close>, \<open>bspeval\<close> ends in the "inconsistent B-spline data"
  failure if and only if the number of columns of the control points plus the degree
  differs from the number of knots minus 1. The right-hand side does not mention the
  samples: the failure is that of the call, whatever the samples are (also samples on
  which the search would not return), and no other path of \<open>bspeval\<close> ends in this
  failure.
\<close>

theorem bspeval_inconsistent_iff:
  assumes "0 \<le> d"
  shows "(bspeval d c k u = Some (Fault InconsistentData))
     = (int (mcols c) + d \<noteq> int (length k) - 1)"
  using bspeval_cols_consistent by (simp add: bspeval_def Let_def)

theorem bspeval_inconsistent_iff_witness:
  "(0 :: int) \<le> 2
   \<and> (bspeval 2 \<lparr>mrows = 2, mcols = 4, mdata = [0, 0, 1, 2, 2, 0, 3, 3]\<rparr>
         [0, 0, 0, 1 / 2, 1, 1] [0, 1 / 3, 1] = Some (Fault InconsistentData))
       = (int (mcols \<lparr>mrows = 2, mcols = 4, mdata = [0, 0, 1, 2, 2, 0, 3, 3]\<rparr>) + 2
            \<noteq> int (length [0, 0, 0, 1 / 2, 1, 1 :: real]) - 1)
   \<and> bspeval 2 \<lparr>mrows = 2, mcols = 4, mdata = [0, 0, 1, 2, 2, 0, 3, 3]\<rparr>
         [0, 0, 0, 1 / 2, 1, 1] [0, 1 / 3, 1] = Some (Fault InconsistentData)"
  using bspeval_inconsistent_iff [of 2 "\<lparr>mrows = 2, mcols = 4, mdata = [0, 0, 1, 2, 2, 0, 3, 3]\<rparr>"
      "[0, 0, 0, 1 / 2, 1, 1]" "[0, 1 / 3, 1]"]
  by simp

section \<open>bspeval: the evaluated points\<close>

lemma basisfun_inner_same:
  assumes "0 \<le> r" "nat j \<le> length N1" "length N1 = length N2"
    and "\<And>q. q < nat j \<Longrightarrow> N1 ! q = N2 ! q"
  shows "same_run (nat j) N1 N2
           (basisfun_inner j left right r saved N1) (basisfun_inner j left right r saved N2)"
  using assms
proof (induction "nat (j - r)" arbitrary: r saved N1 N2 rule: less_induct)
  case less
  show ?case
  proof (cases "r < j")
    case False
    then show ?thesis
      using less.prems
      by (simp add: basisfun_inner.simps [of j left right r] same_run_def)
  next
    case True
    have rj: "nat r < nat j" using True less.prems by simp
    then have rl: "nat r < length N1" using less.prems(2) by (rule less_le_trans)
    have e1: "elem N1 r = Ok (N1 ! nat r)"
      using rl less.prems by (intro elem_in) auto
    have "N1 ! nat r = N2 ! nat r" using less.prems(4) rj .
    moreover have "r < int (length N2)" using rl less.prems by linarith
    ultimately have e2: "elem N2 r = Ok (N1 ! nat r)"
      using less.prems(1) by (simp add: elem_def)
    show ?thesis
    proof (cases "fdiv (N1 ! nat r) (right (r + 1) + left (j - r))")
      case (Fault e)
      then show ?thesis using True e1 e2
        by (simp add: basisfun_inner.simps [of j left right r] same_run_def)
    next
      case (Ok temp)
      define x where "x = saved + right (r + 1) * temp"
      have p1: "put N1 r x = Ok (N1[nat r := x])"
        using rl less.prems by (simp add: put_def)
      have p2: "put N2 r x = Ok (N2[nat r := x])"
        using rl less.prems by (simp add: put_def)
      have "same_run (nat j) (N1[nat r := x]) (N2[nat r := x])
          (basisfun_inner j left right (r + 1) (left (j - r) * temp) (N1[nat r := x]))
          (basisfun_inner j left right (r + 1) (left (j - r) * temp) (N2[nat r := x]))"
      proof (rule less.hyps)
        show "nat (j - (r + 1)) < nat (j - r)" using True by simp
        show "0 \<le> r + 1" using less.prems by simp
        show "nat j \<le> length (N1[nat r := x])" using less.prems by simp
        show "length (N1[nat r := x]) = length (N2[nat r := x])" using less.prems by simp
        show "N1[nat r := x] ! q = N2[nat r := x] ! q" if "q < nat j" for q
          using that less.prems(2,3,4) by (cases "q = nat r") auto
      qed
      then show ?thesis using True e1 e2 Ok p1 p2
        by (simp add: basisfun_inner.simps [of j left right r] same_run_def x_def)
    qed
  qed
qed

lemma basisfun_outer_same:
  assumes "1 \<le> j" "j \<le> p + 1" "length N1 = nat (p + 1)" "length N2 = nat (p + 1)"
    and "\<And>q. q < nat j \<Longrightarrow> N1 ! q = N2 ! q"
  shows "basisfun_outer i u p U j left right N1 = basisfun_outer i u p U j left right N2"
  using assms
proof (induction "nat (p + 1 - j)" arbitrary: j left right N1 N2 rule: less_induct)
  case less
  show ?case
  proof (cases "j \<le> p")
    case False
    then have "nat j = length N1" using less.prems by simp
    then have "N1 = N2" using less.prems by (intro nth_equalityI) auto
    then show ?thesis by simp
  next
    case True
    show ?thesis
    proof (cases "elem U (i + 1 - j)")
      case (Fault e)
      then show ?thesis using True
        by (simp add: basisfun_outer.simps [of i u p U j left right])
    next
      case a: (Ok a)
      show ?thesis
      proof (cases "elem U (i + j)")
        case (Fault e)
        then show ?thesis using True a
          by (simp add: basisfun_outer.simps [of i u p U j left right])
      next
        case b: (Ok b)
        define left' where "left' = left(j := u - a)"
        define right' where "right' = right(j := b - u)"
        have jl: "nat j < length N1" using True less.prems by simp
        have "same_run (nat j) N1 N2
           (basisfun_inner j left' right' 0 0 N1) (basisfun_inner j left' right' 0 0 N2)"
          using less.prems jl by (intro basisfun_inner_same) auto
        then consider (fault) e where "basisfun_inner j left' right' 0 0 N1 = Fault e"
            "basisfun_inner j left' right' 0 0 N2 = Fault e"
          | (ok) s M1 M2 where "basisfun_inner j left' right' 0 0 N1 = Ok (s, M1)"
            "basisfun_inner j left' right' 0 0 N2 = Ok (s, M2)"
            "length M1 = length N1" "length M2 = length N2" "\<forall>q<nat j. M1 ! q = M2 ! q"
          unfolding same_run_def by blast
        then show ?thesis
        proof cases
          case fault
          then show ?thesis using True a b
            by (simp add: basisfun_outer.simps [of i u p U j left right] left'_def right'_def)
        next
          case ok
          have p1: "put M1 j s = Ok (M1[nat j := s])"
            using jl ok less.prems by (simp add: put_def)
          have p2: "put M2 j s = Ok (M2[nat j := s])"
            using jl ok less.prems by (simp add: put_def)
          have suc: "nat (j + 1) = Suc (nat j)" using less.prems by simp
          have "basisfun_outer i u p U (j + 1) left' right' (M1[nat j := s])
              = basisfun_outer i u p U (j + 1) left' right' (M2[nat j := s])"
          proof (rule less.hyps)
            show "nat (p + 1 - (j + 1)) < nat (p + 1 - j)" using True by simp
            show "1 \<le> j + 1" "j + 1 \<le> p + 1" using True less.prems by auto
            show "length (M1[nat j := s]) = nat (p + 1)" "length (M2[nat j := s]) = nat (p + 1)"
              using ok less.prems by auto
            show "M1[nat j := s] ! q = M2[nat j := s] ! q" if "q < nat (j + 1)" for q
              using that ok jl less.prems(3,4) unfolding suc by (cases "q = nat j") auto
          qed
          then show ?thesis using True a b ok p1 p2
            by (simp add: basisfun_outer.simps [of i u p U j left right] left'_def right'_def)
        qed
      qed
    qed
  qed
qed

lemma basisfun_fresh:
  assumes "0 \<le> p" "length N = nat (p + 1)"
  shows "basisfun i u p U N = basisfun i u p U (replicate (nat (p + 1)) 0)"
proof -
  have "basisfun_outer i u p U 1 (\<lambda>k. 0) (\<lambda>k. 0) (N[0 := 1])
      = basisfun_outer i u p U 1 (\<lambda>k. 0) (\<lambda>k. 0) ((replicate (nat (p + 1)) 0)[0 := 1])"
    using assms by (intro basisfun_outer_same) auto
  then show ?thesis using assms by (simp add: basisfun_def put_def)
qed

lemma lin_index_bound:
  fixes i j m n :: nat
  assumes "i < m" "j < n"
  shows "i + m * j < m * n"
proof -
  have "i + m * j < m * Suc j" using assms by simp
  also have "\<dots> \<le> m * n" using assms by (intro mult_le_mono2) simp
  finally show ?thesis .
qed

lemma lin_index_inj:
  fixes i j i' j' m :: nat
  assumes "i < m" "i' < m" "i + m * j = i' + m * j'"
  shows "i = i' \<and> j = j'"
proof -
  have "(i + m * j) mod m = i" "(i' + m * j') mod m = i'" using assms(1,2) by simp_all
  then have i: "i = i'" using assms(3) by metis
  then have "m * j = m * j'" using assms by simp
  then show ?thesis using i assms by simp
qed

lemma mat_get_in:
  assumes "wf_matrix M" "0 \<le> i" "i < int (mrows M)" "0 \<le> j" "j < int (mcols M)"
  shows "mat_get M i j = Ok (mat_at M (nat i) (nat j))"
proof -
  have "nat i + mrows M * nat j < mrows M * mcols M"
    using assms by (intro lin_index_bound) auto
  moreover have "i + int (mrows M) * j = int (nat i + mrows M * nat j)"
    using assms by simp
  ultimately show ?thesis
    using assms(1) by (simp add: mat_get_def mat_at_def wf_matrix_def elem_def del: of_nat_add of_nat_mult)
qed

lemma mat_put_in:
  assumes "wf_matrix M" "0 \<le> i" "i < int (mrows M)" "0 \<le> j" "j < int (mcols M)"
  shows "mat_put M i j x = Ok (mat_upd M (nat i) (nat j) x)"
proof -
  have "nat i + mrows M * nat j < mrows M * mcols M"
    using assms by (intro lin_index_bound) auto
  moreover have "i + int (mrows M) * j = int (nat i + mrows M * nat j)"
    using assms by simp
  ultimately show ?thesis
    using assms(1)
    by (simp add: mat_put_def mat_upd_def wf_matrix_def put_def del: of_nat_add of_nat_mult)
qed

lemma mat_upd_shape [simp]:
  "mrows (mat_upd M i j x) = mrows M" "mcols (mat_upd M i j x) = mcols M"
  "wf_matrix (mat_upd M i j x) = wf_matrix M"
  by (simp_all add: mat_upd_def wf_matrix_def)

lemma mat_at_upd:
  assumes "wf_matrix M" "i < mrows M" "j < mcols M" "i' < mrows M" "j' < mcols M"
  shows "mat_at (mat_upd M i j x) i' j' = (if i' = i \<and> j' = j then x else mat_at M i' j')"
proof (cases "i' = i \<and> j' = j")
  case True
  have "i + mrows M * j < mrows M * mcols M"
    using assms by (intro lin_index_bound) auto
  then show ?thesis using True assms(1) by (simp add: mat_at_def mat_upd_def wf_matrix_def)
next
  case False
  then have "i + mrows M * j \<noteq> i' + mrows M * j'"
    using lin_index_inj [of i "mrows M" i' j j'] assms by auto
  then show ?thesis using False by (auto simp add: mat_at_def mat_upd_def)
qed

lemma bspeval_sum_ok:
  assumes "0 \<le> d" "length N = nat (d + 1)" "wf_matrix c" "0 \<le> row" "row < int (mrows c)"
    and "0 \<le> tmp1" "tmp1 + d < int (mcols c)" "0 \<le> i" "i \<le> d + 1"
  shows "bspeval_sum N c row tmp1 d i acc =
    Ok (acc + (\<Sum>q = nat i..<nat (d + 1). N ! q * mat_at c (nat row) (nat tmp1 + q)))"
  using assms(8,9)
proof (induction "nat (d + 1 - i)" arbitrary: i acc rule: less_induct)
  case less
  show ?case
  proof (cases "i \<le> d")
    case False
    then have "nat i = nat (d + 1)" using less.prems by simp
    then show ?thesis using False by (simp add: bspeval_sum.simps [of N c row tmp1 d i])
  next
    case True
    have e: "elem N i = Ok (N ! nat i)"
      using True less.prems assms by (intro elem_in) auto
    have "mat_get c row (tmp1 + i) = Ok (mat_at c (nat row) (nat (tmp1 + i)))"
      using True less.prems assms by (intro mat_get_in) auto
    moreover have "nat (tmp1 + i) = nat tmp1 + nat i" using less.prems assms by simp
    ultimately have g: "mat_get c row (tmp1 + i) = Ok (mat_at c (nat row) (nat tmp1 + nat i))"
      by simp
    have suc: "nat (i + 1) = Suc (nat i)" using less.prems by simp
    have lt: "nat i < nat (d + 1)" using True less.prems by simp
    have "bspeval_sum N c row tmp1 d (i + 1) (acc + N ! nat i * mat_at c (nat row) (nat tmp1 + nat i))
      = Ok (acc + N ! nat i * mat_at c (nat row) (nat tmp1 + nat i)
          + (\<Sum>q = nat (i + 1)..<nat (d + 1). N ! q * mat_at c (nat row) (nat tmp1 + q)))"
      using True less.prems by (intro less.hyps) auto
    moreover have "(\<Sum>q = nat i..<nat (d + 1). N ! q * mat_at c (nat row) (nat tmp1 + q))
      = N ! nat i * mat_at c (nat row) (nat tmp1 + nat i)
        + (\<Sum>q = nat (i + 1)..<nat (d + 1). N ! q * mat_at c (nat row) (nat tmp1 + q))"
      unfolding suc using lt by (rule sum.atLeast_Suc_lessThan)
    ultimately show ?thesis
      using True e g by (simp add: bspeval_sum.simps [of N c row tmp1 d i])
  qed
qed

lemma bspeval_rows_ok:
  assumes "0 \<le> d" "length N = nat (d + 1)" "wf_matrix c"
    and "0 \<le> tmp1" "tmp1 + d < int (mcols c)"
    and "wf_matrix p" "mrows p = mrows c" "0 \<le> col" "col < int (mcols p)"
    and "0 \<le> row" "row \<le> int (mrows c)"
  shows "\<exists>p'. bspeval_rows N c tmp1 d col row p = Ok p' \<and> wf_matrix p'
    \<and> mrows p' = mrows p \<and> mcols p' = mcols p
    \<and> (\<forall>r<mrows p. \<forall>cc<mcols p. mat_at p' r cc =
          (if cc = nat col \<and> nat row \<le> r
           then (\<Sum>q = 0..<nat (d + 1). N ! q * mat_at c r (nat tmp1 + q))
           else mat_at p r cc))"
  using assms(6,7,9,10,11)
proof (induction "nat (int (mrows c) - row)" arbitrary: row p rule: less_induct)
  case less
  define S where "S = (\<lambda>r. \<Sum>q = 0..<nat (d + 1). N ! q * mat_at c r (nat tmp1 + q))"
  show ?case
  proof (cases "row < int (mrows c)")
    case False
    then have "bspeval_rows N c tmp1 d col row p = Ok p"
      by (subst bspeval_rows.simps) simp
    moreover have "nat row = mrows p" using False less.prems by simp
    ultimately show ?thesis using less.prems(1) by simp
  next
    case True
    have "bspeval_sum N c row tmp1 d 0 0 =
        Ok (0 + (\<Sum>q = nat 0..<nat (d + 1). N ! q * mat_at c (nat row) (nat tmp1 + q)))"
      using assms True less.prems by (intro bspeval_sum_ok) auto
    then have sm: "bspeval_sum N c row tmp1 d 0 0 = Ok (S (nat row))"
      by (simp add: S_def)
    define p1 where "p1 = mat_upd p (nat row) (nat col) (S (nat row))"
    have pt: "mat_put p row col (S (nat row)) = Ok p1"
      unfolding p1_def using True less.prems assms(8) by (intro mat_put_in) auto
    have "\<exists>p'. bspeval_rows N c tmp1 d col (row + 1) p1 = Ok p' \<and> wf_matrix p'
      \<and> mrows p' = mrows p1 \<and> mcols p' = mcols p1
      \<and> (\<forall>r<mrows p1. \<forall>cc<mcols p1. mat_at p' r cc =
          (if cc = nat col \<and> nat (row + 1) \<le> r
           then (\<Sum>q = 0..<nat (d + 1). N ! q * mat_at c r (nat tmp1 + q))
           else mat_at p1 r cc))"
      using True less.prems by (intro less.hyps) (auto simp: p1_def)
    then obtain p' where p': "bspeval_rows N c tmp1 d col (row + 1) p1 = Ok p'"
      "wf_matrix p'" "mrows p' = mrows p" "mcols p' = mcols p"
      "\<And>r cc. r < mrows p \<Longrightarrow> cc < mcols p \<Longrightarrow> mat_at p' r cc =
          (if cc = nat col \<and> nat (row + 1) \<le> r then S r else mat_at p1 r cc)"
      by (auto simp: p1_def S_def)
    have entry: "mat_at p' r cc = (if cc = nat col \<and> nat row \<le> r then S r else mat_at p r cc)"
      if "r < mrows p" "cc < mcols p" for r cc
    proof -
      have "mat_at p1 r cc = (if r = nat row \<and> cc = nat col then S (nat row) else mat_at p r cc)"
        unfolding p1_def using that True less.prems assms(8) by (intro mat_at_upd) auto
      then show ?thesis
        using p'(5) [OF that] less.prems(4) by (cases "r = nat row") auto
    qed
    have "bspeval_rows N c tmp1 d col row p = Ok p'"
      using True sm pt p'(1) by (simp add: bspeval_rows.simps [of N c tmp1 d col row])
    then show ?thesis using p'(2-4) entry by (auto simp: S_def)
  qed
qed

lemma bspeval_sample:
  assumes k: "sorted k" "0 \<le> d" "d < int (mcols c)" "int (mcols c) \<le> 1073741824"
      "int (mcols c) + d = int (length k) - 1" "k ! (mcols c - 1) < k ! mcols c"
    and x: "k ! nat d \<le> x" "x \<le> k ! mcols c"
    and N: "length N = nat (d + 1)"
  shows "\<exists>s N'. findspan (int (mcols c) - 1) d x k = Some (Ok s)
    \<and> basisfun s x d k N = Ok N' \<and> basisfun s x d k (replicate (nat (d + 1)) 0) = Ok N'
    \<and> length N' = nat (d + 1) \<and> d \<le> s \<and> s < int (mcols c)"
proof -
  define n where "n = int (mcols c) - 1"
  have n1: "nat (n + 1) = mcols c" "nat n = mcols c - 1" by (simp_all add: n_def)
  have "\<exists>s. findspan n d x k = Some (Ok s) \<and>
    (if x = k ! nat (n + 1) then s = n
     else d \<le> s \<and> s \<le> n \<and> k ! nat s \<le> x \<and> x < k ! nat (s + 1))"
  proof (rule findspan_in_domain)
    show "sorted k" "0 \<le> d" "0 \<le> n" "n < 1073741824" "d < int (length k)"
      "n + 1 < int (length k)"
      using k by (auto simp: n_def)
    show "k ! nat d \<le> x" "x \<le> k ! nat (n + 1)" using x n1 by auto
  qed
  then obtain s where s: "findspan n d x k = Some (Ok s)"
    "if x = k ! nat (n + 1) then s = n
     else d \<le> s \<and> s \<le> n \<and> k ! nat s \<le> x \<and> x < k ! nat (s + 1)"
    by blast
  have span: "d \<le> s" "s \<le> n" "k ! nat s \<le> x" "x \<le> k ! nat (s + 1)"
    "k ! nat s < k ! nat (s + 1)"
    using s(2) k x n1 by (auto simp: n_def split: if_splits)
  have "\<exists>N'. basisfun s x d k N = Ok N' \<and> length N' = nat (d + 1)
           \<and> (\<forall>q<length N'. 0 \<le> N' ! q) \<and> sum_list N' = 1"
    using k span N by (intro basisfun_returns) (auto simp: n_def)
  then obtain N' where "basisfun s x d k N = Ok N'" "length N' = nat (d + 1)"
    by blast
  moreover have "basisfun s x d k N = basisfun s x d k (replicate (nat (d + 1)) 0)"
    using k N by (intro basisfun_fresh) auto
  ultimately show ?thesis using s(1) span by (auto simp: n_def)
qed

lemma bspeval_cols_ok:
  assumes k: "sorted k" "0 \<le> d" "d < int (mcols c)" "int (mcols c) \<le> 1073741824"
      "int (mcols c) + d = int (length k) - 1" "k ! (mcols c - 1) < k ! mcols c"
    and u: "\<And>cc. cc < length u \<Longrightarrow> k ! nat d \<le> u ! cc \<and> u ! cc \<le> k ! mcols c"
    and c: "wf_matrix c"
    and p: "wf_matrix p" "mrows p = mrows c" "mcols p = length u"
    and N: "length N = nat (d + 1)"
    and col: "0 \<le> col" "col \<le> int (length u)"
  shows "\<exists>p'. bspeval_cols d c k u col N p = Some (Ok p') \<and> wf_matrix p'
    \<and> mrows p' = mrows p \<and> mcols p' = mcols p
    \<and> (\<forall>cc<length u.
          if nat col \<le> cc then evaluated d c k (u ! cc) p' cc
          else (\<forall>r<mrows c. mat_at p' r cc = mat_at p r cc))"
  using p N col
proof (induction "nat (int (length u) - col)" arbitrary: col N p rule: less_induct)
  case less
  show ?case
  proof (cases "col < int (length u)")
    case False
    then have "bspeval_cols d c k u col N p = Some (Ok p)"
      by (subst bspeval_cols.simps) simp
    moreover have "nat col = length u" using False less.prems by simp
    ultimately show ?thesis using less.prems(1) by simp
  next
    case True
    define x where "x = u ! nat col"
    have cl: "nat col < length u" using True less.prems by simp
    have ex: "elem u col = Ok x"
      unfolding x_def using True less.prems by (intro elem_in) auto
    have "\<exists>s N'. findspan (int (mcols c) - 1) d x k = Some (Ok s)
      \<and> basisfun s x d k N = Ok N' \<and> basisfun s x d k (replicate (nat (d + 1)) 0) = Ok N'
      \<and> length N' = nat (d + 1) \<and> d \<le> s \<and> s < int (mcols c)"
      using k u [OF cl] less.prems(4) unfolding x_def by (intro bspeval_sample) auto
    then obtain s N' where s: "findspan (int (mcols c) - 1) d x k = Some (Ok s)"
      "basisfun s x d k N = Ok N'" "basisfun s x d k (replicate (nat (d + 1)) 0) = Ok N'"
      "length N' = nat (d + 1)" "d \<le> s" "s < int (mcols c)"
      by blast
    define S where "S = (\<lambda>r. \<Sum>q = 0..<nat (d + 1). N' ! q * mat_at c r (nat (s - d) + q))"
    have "\<exists>p'. bspeval_rows N' c (s - d) d col 0 p = Ok p' \<and> wf_matrix p'
      \<and> mrows p' = mrows p \<and> mcols p' = mcols p
      \<and> (\<forall>r<mrows p. \<forall>cc<mcols p. mat_at p' r cc =
          (if cc = nat col \<and> nat 0 \<le> r
           then (\<Sum>q = 0..<nat (d + 1). N' ! q * mat_at c r (nat (s - d) + q))
           else mat_at p r cc))"
      using k c s True less.prems by (intro bspeval_rows_ok) auto
    then obtain p1 where p1: "bspeval_rows N' c (s - d) d col 0 p = Ok p1" "wf_matrix p1"
      "mrows p1 = mrows p" "mcols p1 = mcols p"
      "\<And>r cc. r < mrows p \<Longrightarrow> cc < mcols p \<Longrightarrow>
         mat_at p1 r cc = (if cc = nat col then S r else mat_at p r cc)"
      by (auto simp: S_def)
    have "\<exists>p'. bspeval_cols d c k u (col + 1) N' p1 = Some (Ok p') \<and> wf_matrix p'
      \<and> mrows p' = mrows p1 \<and> mcols p' = mcols p1
      \<and> (\<forall>cc<length u.
          if nat (col + 1) \<le> cc then evaluated d c k (u ! cc) p' cc
          else (\<forall>r<mrows c. mat_at p' r cc = mat_at p1 r cc))"
      using True less.prems p1 s by (intro less.hyps) auto
    then obtain p' where p': "bspeval_cols d c k u (col + 1) N' p1 = Some (Ok p')"
      "wf_matrix p'" "mrows p' = mrows p" "mcols p' = mcols p"
      "\<And>cc. cc < length u \<Longrightarrow>
          if nat (col + 1) \<le> cc then evaluated d c k (u ! cc) p' cc
          else (\<forall>r<mrows c. mat_at p' r cc = mat_at p1 r cc)"
      using p1(3,4) by auto
    have suc: "nat (col + 1) = Suc (nat col)" using less.prems by simp
    have dd: "{0..<nat (d + 1)} = {0..nat d}" using k by (auto simp: nat_add_distrib)
    have entry: "if nat col \<le> cc then evaluated d c k (u ! cc) p' cc
          else (\<forall>r<mrows c. mat_at p' r cc = mat_at p r cc)" if "cc < length u" for cc
    proof (cases "cc = nat col")
      case True
      then have "mat_at p' r cc = S r" if "r < mrows c" for r
        using p'(5) [OF cl] p1(5) [of r "nat col"] that cl less.prems(2,3) unfolding suc by simp
      then have "evaluated d c k (u ! cc) p' cc"
        unfolding evaluated_def using s(1,3) True by (auto simp: x_def S_def dd)
      then show ?thesis using True by simp
    next
      case False
      show ?thesis
      proof (cases "nat col \<le> cc")
        case True
        then show ?thesis using p'(5) [OF that] False unfolding suc by auto
      next
        case below: False
        then have "mat_at p' r cc = mat_at p r cc" if "r < mrows c" for r
          using p'(5) [OF \<open>cc < length u\<close>] p1(5) [of r cc] that \<open>cc < length u\<close>
            less.prems(2,3) False unfolding suc by simp
        then show ?thesis using below by simp
      qed
    qed
    have "bspeval_cols d c k u col N p = Some (Ok p')"
      using True ex s(1,2) p1(1) p'(1) by (simp add: bspeval_cols.simps [of d c k u col N p])
    then show ?thesis using p'(2-4) entry by auto
  qed
qed

text \<open>
  Claim C4. Let the input be consistent (\<open>nc + d\<close> is the number of knots minus 1), with
  \<open>0 \<le> d < nc \<le> 2^30\<close>, non-decreasing knots whose last span \<open>[k[nc-1], k[nc]]\<close> is not
  empty, a control matrix whose data has \<open>rows * nc\<close> elements, and every sample in the
  domain \<open>[k[d], k[nc]]\<close>. Then \<open>bspeval\<close> returns a matrix with one column per sample,
  and in the column of each sample \<open>u\<close> every row holds
  \<open>\<Sum>i = 0..d. N[i] * c[row][span - d + i]\<close>, where \<open>span = findspan (nc - 1) d u k\<close> and
  \<open>N = basisfun span u d k\<close> computed on a fresh vector of \<open>d + 1\<close> entries.
\<close>

theorem bspeval_points:
  assumes "int (mcols c) + d = int (length k) - 1"
    and "sorted k" "0 \<le> d" "d < int (mcols c)" "int (mcols c) \<le> 1073741824"
    and "k ! (mcols c - 1) < k ! mcols c"
    and "wf_matrix c"
    and "\<forall>x\<in>set u. k ! nat d \<le> x \<and> x \<le> k ! mcols c"
  shows "\<exists>p. bspeval d c k u = Some (Ok p) \<and> mrows p = mrows c \<and> mcols p = length u
    \<and> (\<forall>col<length u. \<exists>s N.
          findspan (int (mcols c) - 1) d (u ! col) k = Some (Ok s)
          \<and> basisfun s (u ! col) d k (replicate (nat (d + 1)) 0) = Ok N
          \<and> (\<forall>row<mrows c.
                mat_at p row col = (\<Sum>i = 0..nat d. N ! i * mat_at c row (nat (s - d) + i))))"
proof -
  define p0 where "p0 = new_matrix (int (mrows c)) (int (length u)) 0"
  have "\<exists>p'. bspeval_cols d c k u 0 (replicate (nat (d + 1)) 0) p0 = Some (Ok p') \<and> wf_matrix p'
    \<and> mrows p' = mrows p0 \<and> mcols p' = mcols p0
    \<and> (\<forall>cc<length u.
          if nat 0 \<le> cc then evaluated d c k (u ! cc) p' cc
          else (\<forall>r<mrows c. mat_at p' r cc = mat_at p0 r cc))"
    using assms by (intro bspeval_cols_ok) (auto simp: p0_def new_matrix_def wf_matrix_def)
  then obtain p where "bspeval_cols d c k u 0 (replicate (nat (d + 1)) 0) p0 = Some (Ok p)"
    "mrows p = mrows c" "mcols p = length u" "\<forall>cc<length u. evaluated d c k (u ! cc) p cc"
    by (auto simp: p0_def new_matrix_def)
  then show ?thesis
    using assms(1) unfolding evaluated_def by (simp add: bspeval_def p0_def)
qed

theorem bspeval_points_witness:
  "int (mcols \<lparr>mrows = 2, mcols = 4, mdata = [0, 0, 1, 2, 2, 0, 3, 3]\<rparr>) + 2
     = int (length [0, 0, 0, 1 / 2, 1, 1, 1 :: real]) - 1
   \<and> sorted [0, 0, 0, 1 / 2, 1, 1, 1 :: real] \<and> (0 :: int) \<le> 2
   \<and> 2 < int (mcols \<lparr>mrows = 2, mcols = 4, mdata = [0, 0, 1, 2, 2, 0, 3, 3]\<rparr>)
   \<and> int (mcols \<lparr>mrows = 2, mcols = 4, mdata = [0, 0, 1, 2, 2, 0, 3, 3]\<rparr>) \<le> 1073741824
   \<and> [0, 0, 0, 1 / 2, 1, 1, 1 :: real] ! (4 - 1) < [0, 0, 0, 1 / 2, 1, 1, 1] ! 4
   \<and> wf_matrix \<lparr>mrows = 2, mcols = 4, mdata = [0, 0, 1, 2, 2, 0, 3, 3]\<rparr>
   \<and> list_all (\<lambda>x. [0, 0, 0, 1 / 2, 1, 1, 1] ! nat 2 \<le> x \<and> x \<le> [0, 0, 0, 1 / 2, 1, 1, 1] ! 4)
        [0, 1 / 3, 1 :: real]
   \<and> (\<exists>p. bspeval 2 \<lparr>mrows = 2, mcols = 4, mdata = [0, 0, 1, 2, 2, 0, 3, 3]\<rparr>
             [0, 0, 0, 1 / 2, 1, 1, 1] [0, 1 / 3, 1] = Some (Ok p)
        \<and> mrows p = 2 \<and> mcols p = 3
        \<and> (\<forall>col<3. \<exists>s N.
              findspan 3 2 ([0, 1 / 3, 1] ! col) [0, 0, 0, 1 / 2, 1, 1, 1] = Some (Ok s)
              \<and> basisfun s ([0, 1 / 3, 1] ! col) 2 [0, 0, 0, 1 / 2, 1, 1, 1]
                   (replicate (nat (2 + 1)) 0) = Ok N
              \<and> (\<forall>row<2. mat_at p row col =
                    (\<Sum>i = 0..nat 2. N ! i
                       * mat_at \<lparr>mrows = 2, mcols = 4, mdata = [0, 0, 1, 2, 2, 0, 3, 3]\<rparr>
                           row (nat (s - 2) + i)))))"
  using bspeval_points [of "\<lparr>mrows = 2, mcols = 4, mdata = [0, 0, 1, 2, 2, 0, 3, 3]\<rparr>" 2
      "[0, 0, 0, 1 / 2, 1, 1, 1]" "[0, 1 / 3, 1]"]
  by (simp add: wf_matrix_def eval_nat_numeral)

section \<open>bspderiv\<close>

lemma bspderiv_rows_consistent:
  "bspderiv_rows tmp c i j dc \<noteq> Fault InconsistentData"
proof (induction tmp c i j dc rule: bspderiv_rows.induct)
  case (1 tmp c i j dc)
  show ?case
  proof
    assume "bspderiv_rows tmp c i j dc = Fault InconsistentData"
    then show False
      using 1
      by (subst (asm) bspderiv_rows.simps)
         (auto split: if_splits dest!: and_then_fault dest: mat_get_fault mat_put_fault)
  qed
qed

lemma bspderiv_cols_consistent:
  "bspderiv_cols d c k i dc \<noteq> Fault InconsistentData"
proof (induction d c k i dc rule: bspderiv_cols.induct)
  case (1 d c k i dc)
  show ?case
  proof
    assume "bspderiv_cols d c k i dc = Fault InconsistentData"
    then show False
      using 1 bspderiv_rows_consistent
      by (subst (asm) bspderiv_cols.simps)
         (auto split: if_splits dest!: and_then_fault dest: elem_fault fdiv_fault)
  qed
qed

lemma bspderiv_knots_consistent:
  "bspderiv_knots k i dk \<noteq> Fault InconsistentData"
proof (induction k i dk rule: bspderiv_knots.induct)
  case (1 k i dk)
  show ?case
  proof
    assume "bspderiv_knots k i dk = Fault InconsistentData"
    then show False
      using 1
      by (subst (asm) bspderiv_knots.simps)
         (auto split: if_splits dest!: and_then_fault dest: elem_fault put_fault)
  qed
qed

text \<open>
  Claim C10. \<open>bspderiv\<close> validates nothing: on no input does it end in the
  "inconsistent B-spline data" failure. It goes straight to the computation, also when
  the number of control points plus the degree is not the number of knots minus 1: with
  2 control points, degree 1 and 6 knots it returns the pair \<open>(dc, dk)\<close>.
\<close>

theorem bspderiv_no_validation:
  "bspderiv d c k nargout \<noteq> Fault InconsistentData
   \<and> int (mcols \<lparr>mrows = 1, mcols = 2, mdata = [0, 1]\<rparr>) + 1 \<noteq> int (length [0, 1, 2, 3, 4, 5 :: real]) - 1
   \<and> bspderiv 1 \<lparr>mrows = 1, mcols = 2, mdata = [0, 1]\<rparr> [0, 1, 2, 3, 4, 5] 2
       = Ok (\<lparr>mrows = 1, mcols = 1, mdata = [1]\<rparr>, Some [1, 2, 3, 4])"
proof -
  have "bspderiv d c k nargout \<noteq> Fault InconsistentData"
    using bspderiv_cols_consistent bspderiv_knots_consistent
    by (auto simp: bspderiv_def Let_def dest!: and_then_fault)
  moreover have "bspderiv 1 \<lparr>mrows = 1, mcols = 2, mdata = [0, 1]\<rparr> [0, 1, 2, 3, 4, 5] 2
       = Ok (\<lparr>mrows = 1, mcols = 1, mdata = [1]\<rparr>, Some [1, 2, 3, 4])"
    by (simp add: bspderiv_def Let_def new_matrix_def bspderiv_cols.simps bspderiv_rows.simps
        bspderiv_knots.simps elem_def put_def fdiv_def mat_get_def mat_put_def eval_nat_numeral)
  ultimately show ?thesis by simp
qed

lemma bspderiv_rows_ok:
  assumes "wf_matrix c" "0 \<le> i" "i + 1 < int (mcols c)"
    and "wf_matrix dc" "mrows dc = mrows c" "i < int (mcols dc)"
    and "0 \<le> j" "j \<le> int (mrows c)"
  shows "\<exists>dc'. bspderiv_rows tmp c i j dc = Ok dc' \<and> wf_matrix dc'
    \<and> mrows dc' = mrows dc \<and> mcols dc' = mcols dc
    \<and> (\<forall>r<mrows dc. \<forall>cc<mcols dc. mat_at dc' r cc =
          (if cc = nat i \<and> nat j \<le> r
           then tmp * (mat_at c r (nat i + 1) - mat_at c r (nat i))
           else mat_at dc r cc))"
  using assms(4,5,6,7,8)
proof (induction "nat (int (mrows c) - j)" arbitrary: j dc rule: less_induct)
  case less
  show ?case
  proof (cases "j \<le> int (mrows c) - 1")
    case False
    then have "bspderiv_rows tmp c i j dc = Ok dc"
      by (subst bspderiv_rows.simps) simp
    moreover have "nat j = mrows dc" using False less.prems by simp
    ultimately show ?thesis using less.prems(1) by simp
  next
    case True
    define v where "v = tmp * (mat_at c (nat j) (nat i + 1) - mat_at c (nat j) (nat i))"
    have "mat_get c j (i + 1) = Ok (mat_at c (nat j) (nat (i + 1)))"
      using assms True less.prems by (intro mat_get_in) auto
    moreover have "nat (i + 1) = nat i + 1" using assms by simp
    ultimately have g1: "mat_get c j (i + 1) = Ok (mat_at c (nat j) (nat i + 1))" by simp
    have g0: "mat_get c j i = Ok (mat_at c (nat j) (nat i))"
      using assms True less.prems by (intro mat_get_in) auto
    define dc1 where "dc1 = mat_upd dc (nat j) (nat i) v"
    have pt: "mat_put dc j i v = Ok dc1"
      unfolding dc1_def using assms(2) True less.prems by (intro mat_put_in) auto
    have "\<exists>dc'. bspderiv_rows tmp c i (j + 1) dc1 = Ok dc' \<and> wf_matrix dc'
      \<and> mrows dc' = mrows dc1 \<and> mcols dc' = mcols dc1
      \<and> (\<forall>r<mrows dc1. \<forall>cc<mcols dc1. mat_at dc' r cc =
          (if cc = nat i \<and> nat (j + 1) \<le> r
           then tmp * (mat_at c r (nat i + 1) - mat_at c r (nat i))
           else mat_at dc1 r cc))"
      using True less.prems by (intro less.hyps) (auto simp: dc1_def)
    then obtain dc' where dc': "bspderiv_rows tmp c i (j + 1) dc1 = Ok dc'"
      "wf_matrix dc'" "mrows dc' = mrows dc" "mcols dc' = mcols dc"
      "\<And>r cc. r < mrows dc \<Longrightarrow> cc < mcols dc \<Longrightarrow> mat_at dc' r cc =
          (if cc = nat i \<and> nat (j + 1) \<le> r
           then tmp * (mat_at c r (nat i + 1) - mat_at c r (nat i))
           else mat_at dc1 r cc)"
      by (auto simp: dc1_def)
    have entry: "mat_at dc' r cc =
          (if cc = nat i \<and> nat j \<le> r
           then tmp * (mat_at c r (nat i + 1) - mat_at c r (nat i))
           else mat_at dc r cc)"
      if "r < mrows dc" "cc < mcols dc" for r cc
    proof -
      have "mat_at dc1 r cc = (if r = nat j \<and> cc = nat i then v else mat_at dc r cc)"
        unfolding dc1_def using that True less.prems assms(2) by (intro mat_at_upd) auto
      then show ?thesis
        using dc'(5) [OF that] less.prems(4) by (cases "r = nat j") (auto simp: v_def)
    qed
    have "bspderiv_rows tmp c i j dc = Ok dc'"
      using True g1 g0 pt dc'(1) by (simp add: bspderiv_rows.simps [of tmp c i j dc] v_def)
    then show ?thesis using dc'(2-4) entry by auto
  qed
qed

lemma bspderiv_cols_ok:
  assumes "wf_matrix c"
    and k: "\<And>q. q < mcols c - 1 \<Longrightarrow>
        0 \<le> int q + d + 1 \<and> int q + d + 1 < int (length k) \<and> q + 1 < length k
        \<and> k ! nat (int q + d + 1) \<noteq> k ! (q + 1)"
    and "wf_matrix dc" "mrows dc = mrows c" "mcols dc = mcols c - 1"
    and "0 \<le> i" "i \<le> int (mcols c) - 1"
  shows "\<exists>dc'. bspderiv_cols d c k i dc = Ok dc' \<and> wf_matrix dc'
    \<and> mrows dc' = mrows dc \<and> mcols dc' = mcols dc
    \<and> (\<forall>r<mrows dc. \<forall>cc<mcols dc. mat_at dc' r cc =
          (if nat i \<le> cc
           then real_of_int d / (k ! nat (int cc + d + 1) - k ! (cc + 1))
                  * (mat_at c r (cc + 1) - mat_at c r cc)
           else mat_at dc r cc))"
  using assms(3,4,5,6,7)
proof (induction "nat (int (mcols c) - 1 - i)" arbitrary: i dc rule: less_induct)
  case less
  show ?case
  proof (cases "i \<le> int (mcols c) - 2")
    case False
    then have "bspderiv_cols d c k i dc = Ok dc"
      by (subst bspderiv_cols.simps) simp
    moreover have "nat i = mcols dc" using False less.prems by simp
    ultimately show ?thesis using less.prems(1) by simp
  next
    case True
    have il: "nat i < mcols c - 1" using True less.prems by simp
    define tmp where "tmp = real_of_int d / (k ! nat (int (nat i) + d + 1) - k ! (nat i + 1))"
    have ii: "int (nat i) = i" using less.prems by simp
    have ea: "elem k (i + d + 1) = Ok (k ! nat (i + d + 1))"
      using k [OF il] ii by (intro elem_in) auto
    have "elem k (i + 1) = Ok (k ! nat (i + 1))"
      using k [OF il] less.prems by (intro elem_in) auto
    moreover have "nat (i + 1) = nat i + 1" using less.prems by simp
    ultimately have eb: "elem k (i + 1) = Ok (k ! (nat i + 1))" by simp
    have fd: "fdiv (real_of_int d) (k ! nat (i + d + 1) - k ! (nat i + 1)) = Ok tmp"
      using k [OF il] ii by (simp add: fdiv_def tmp_def)
    have "\<exists>dc'. bspderiv_rows tmp c i 0 dc = Ok dc' \<and> wf_matrix dc'
      \<and> mrows dc' = mrows dc \<and> mcols dc' = mcols dc
      \<and> (\<forall>r<mrows dc. \<forall>cc<mcols dc. mat_at dc' r cc =
          (if cc = nat i \<and> nat 0 \<le> r
           then tmp * (mat_at c r (nat i + 1) - mat_at c r (nat i))
           else mat_at dc r cc))"
      using assms(1) True less.prems by (intro bspderiv_rows_ok) auto
    then obtain dc1 where dc1: "bspderiv_rows tmp c i 0 dc = Ok dc1" "wf_matrix dc1"
      "mrows dc1 = mrows dc" "mcols dc1 = mcols dc"
      "\<And>r cc. r < mrows dc \<Longrightarrow> cc < mcols dc \<Longrightarrow> mat_at dc1 r cc =
          (if cc = nat i then tmp * (mat_at c r (nat i + 1) - mat_at c r (nat i))
           else mat_at dc r cc)"
      by auto
    have "\<exists>dc'. bspderiv_cols d c k (i + 1) dc1 = Ok dc' \<and> wf_matrix dc'
      \<and> mrows dc' = mrows dc1 \<and> mcols dc' = mcols dc1
      \<and> (\<forall>r<mrows dc1. \<forall>cc<mcols dc1. mat_at dc' r cc =
          (if nat (i + 1) \<le> cc
           then real_of_int d / (k ! nat (int cc + d + 1) - k ! (cc + 1))
                  * (mat_at c r (cc + 1) - mat_at c r cc)
           else mat_at dc1 r cc))"
      using True less.prems dc1(2-4) by (intro less.hyps) auto
    then obtain dc' where dc': "bspderiv_cols d c k (i + 1) dc1 = Ok dc'"
      "wf_matrix dc'" "mrows dc' = mrows dc" "mcols dc' = mcols dc"
      "\<And>r cc. r < mrows dc \<Longrightarrow> cc < mcols dc \<Longrightarrow> mat_at dc' r cc =
          (if nat (i + 1) \<le> cc
           then real_of_int d / (k ! nat (int cc + d + 1) - k ! (cc + 1))
                  * (mat_at c r (cc + 1) - mat_at c r cc)
           else mat_at dc1 r cc)"
      using dc1(3,4) by auto
    have suc: "nat (i + 1) = Suc (nat i)" using less.prems by simp
    have entry: "mat_at dc' r cc =
          (if nat i \<le> cc
           then real_of_int d / (k ! nat (int cc + d + 1) - k ! (cc + 1))
                  * (mat_at c r (cc + 1) - mat_at c r cc)
           else mat_at dc r cc)"
      if "r < mrows dc" "cc < mcols dc" for r cc
      using dc'(5) [OF that] dc1(5) [OF that] unfolding suc
      by (cases "cc = nat i") (auto simp: tmp_def)
    have "bspderiv_cols d c k i dc = Ok dc'"
      using True ea eb fd dc1(1) dc'(1) by (simp add: bspderiv_cols.simps [of d c k i dc])
    then show ?thesis using dc'(2-4) entry by auto
  qed
qed

lemma bspderiv_knots_ok:
  assumes "length dk = length k - 2" "1 \<le> i" "i \<le> int (length k) - 1" "2 \<le> length k"
  shows "\<exists>dk'. bspderiv_knots k i dk = Ok dk' \<and> length dk' = length dk
    \<and> (\<forall>q<length dk. dk' ! q = (if nat i - 1 \<le> q then k ! (q + 1) else dk ! q))"
  using assms(1,2,3)
proof (induction "nat (int (length k) - 1 - i)" arbitrary: i dk rule: less_induct)
  case less
  show ?case
  proof (cases "i \<le> int (length k) - 2")
    case False
    then have "bspderiv_knots k i dk = Ok dk"
      by (subst bspderiv_knots.simps) simp
    moreover have "nat i - 1 = length dk" using False less.prems assms(4) by simp
    ultimately show ?thesis by simp
  next
    case True
    define dk1 where "dk1 = dk[nat i - 1 := k ! nat i]"
    have e: "elem k i = Ok (k ! nat i)"
      using True less.prems by (intro elem_in) auto
    have "nat (i - 1) = nat i - 1" by simp
    then have p: "put dk (i - 1) (k ! nat i) = Ok dk1"
      using True less.prems assms(4) by (simp add: put_def dk1_def)
    have "\<exists>dk'. bspderiv_knots k (i + 1) dk1 = Ok dk' \<and> length dk' = length dk1
      \<and> (\<forall>q<length dk1. dk' ! q = (if nat (i + 1) - 1 \<le> q then k ! (q + 1) else dk1 ! q))"
      using True less.prems by (intro less.hyps) (auto simp: dk1_def)
    then obtain dk' where dk': "bspderiv_knots k (i + 1) dk1 = Ok dk'" "length dk' = length dk"
      "\<And>q. q < length dk \<Longrightarrow>
         dk' ! q = (if nat (i + 1) - 1 \<le> q then k ! (q + 1) else dk1 ! q)"
      by (auto simp: dk1_def)
    have suc: "nat (i + 1) - 1 = nat i" "Suc (nat i - 1) = nat i" using less.prems by simp_all
    have entry: "dk' ! q = (if nat i - 1 \<le> q then k ! (q + 1) else dk ! q)"
      if "q < length dk" for q
      using dk'(3) [OF that] that suc unfolding dk1_def
      by (cases "q = nat i - 1") (auto simp del: nat_diff_distrib')
    have "bspderiv_knots k i dk = Ok dk'"
      using True e p dk'(1) by (simp add: bspderiv_knots.simps [of k i dk])
    then show ?thesis using dk'(2) entry by auto
  qed
qed

text \<open>
  Claim C5. Let \<open>c\<close> be an \<open>mc \<times> nc\<close> matrix with \<open>nc \<ge> 1\<close> and \<open>k\<close> have \<open>nk \<ge> 2\<close>
  knots, and let, for every \<open>i\<close> from 0 to \<open>nc - 2\<close>, the knots \<open>k[i+d+1]\<close> and \<open>k[i+1]\<close>
  exist and differ. Then \<open>bspderiv\<close> returns an \<open>mc \<times> (nc - 1)\<close> matrix whose column \<open>i\<close>
  is \<open>d / (k[i+d+1] - k[i+1]) * (c[:,i+1] - c[:,i])\<close>, and (when the second value is
  asked for) the \<open>nk - 2\<close> knots that remain when the first and the last are dropped.
\<close>

theorem bspderiv_control_points:
  assumes "wf_matrix c" "1 \<le> mcols c" "2 \<le> length k"
    and "\<forall>i<mcols c - 1.
        0 \<le> int i + d + 1 \<and> int i + d + 1 < int (length k) \<and> i + 1 < length k
        \<and> k ! nat (int i + d + 1) \<noteq> k ! (i + 1)"
  shows "\<exists>dc. bspderiv d c k nargout = Ok (dc, if 1 < nargout then Some (butlast (tl k)) else None)
    \<and> wf_matrix dc \<and> mrows dc = mrows c \<and> mcols dc = mcols c - 1
    \<and> length (butlast (tl k)) = length k - 2
    \<and> (\<forall>i<mcols c - 1. \<forall>j<mrows c. mat_at dc j i =
          real_of_int d / (k ! nat (int i + d + 1) - k ! (i + 1))
            * (mat_at c j (i + 1) - mat_at c j i))"
proof -
  define dc0 where "dc0 = new_matrix (int (mrows c)) (int (mcols c) - 1) 0"
  define dk0 :: rowvector where "dk0 = replicate (nat (int (length k) - 2)) 0"
  have shape0: "wf_matrix dc0" "mrows dc0 = mrows c" "mcols dc0 = mcols c - 1"
    using assms(2) by (auto simp: dc0_def new_matrix_def wf_matrix_def)
  have "\<exists>dc'. bspderiv_cols d c k 0 dc0 = Ok dc' \<and> wf_matrix dc'
    \<and> mrows dc' = mrows dc0 \<and> mcols dc' = mcols dc0
    \<and> (\<forall>r<mrows dc0. \<forall>cc<mcols dc0. mat_at dc' r cc =
          (if nat 0 \<le> cc
           then real_of_int d / (k ! nat (int cc + d + 1) - k ! (cc + 1))
                  * (mat_at c r (cc + 1) - mat_at c r cc)
           else mat_at dc0 r cc))"
    using assms shape0 by (intro bspderiv_cols_ok) auto
  then obtain dc where dc: "bspderiv_cols d c k 0 dc0 = Ok dc" "wf_matrix dc"
    "mrows dc = mrows c" "mcols dc = mcols c - 1"
    "\<forall>r<mrows c. \<forall>cc<mcols c - 1. mat_at dc r cc =
        real_of_int d / (k ! nat (int cc + d + 1) - k ! (cc + 1))
          * (mat_at c r (cc + 1) - mat_at c r cc)"
    using shape0 by auto
  have "\<exists>dk'. bspderiv_knots k 1 dk0 = Ok dk' \<and> length dk' = length dk0
    \<and> (\<forall>q<length dk0. dk' ! q = (if nat 1 - 1 \<le> q then k ! (q + 1) else dk0 ! q))"
    using assms(3) by (intro bspderiv_knots_ok) (auto simp: dk0_def)
  then obtain dk where dk: "bspderiv_knots k 1 dk0 = Ok dk" "length dk = length k - 2"
    "\<forall>q<length k - 2. dk ! q = k ! (q + 1)"
    using assms(3) by (auto simp: dk0_def)
  have "dk = butlast (tl k)"
    using dk(2,3) by (intro nth_equalityI) (auto simp: nth_butlast nth_tl)
  then show ?thesis
    using dc dk(1) by (auto simp: bspderiv_def Let_def dc0_def dk0_def)
qed

theorem bspderiv_control_points_witness:
  "wf_matrix \<lparr>mrows = 2, mcols = 4, mdata = [0, 0, 1, 2, 2, 0, 3, 3]\<rparr>
   \<and> 1 \<le> mcols \<lparr>mrows = 2, mcols = 4, mdata = [0, 0, 1, 2, 2, 0, 3, 3]\<rparr>
   \<and> 2 \<le> length [0, 0, 0, 1 / 2, 1, 1, 1 :: real]
   \<and> [0, 0, 0, 1 / 2, 1, 1, 1 :: real] ! 3 \<noteq> [0, 0, 0, 1 / 2, 1, 1, 1] ! 1
   \<and> [0, 0, 0, 1 / 2, 1, 1, 1 :: real] ! 4 \<noteq> [0, 0, 0, 1 / 2, 1, 1, 1] ! 2
   \<and> [0, 0, 0, 1 / 2, 1, 1, 1 :: real] ! 5 \<noteq> [0, 0, 0, 1 / 2, 1, 1, 1] ! 3
   \<and> (\<exists>dc. bspderiv 2 \<lparr>mrows = 2, mcols = 4, mdata = [0, 0, 1, 2, 2, 0, 3, 3]\<rparr>
              [0, 0, 0, 1 / 2, 1, 1, 1] 2
            = Ok (dc, Some [0, 0, 1 / 2, 1, 1])
        \<and> wf_matrix dc \<and> mrows dc = 2 \<and> mcols dc = 3
        \<and> (\<forall>i<3. \<forall>j<2. mat_at dc j i =
              2 / ([0, 0, 0, 1 / 2, 1, 1, 1] ! nat (int i + 2 + 1) - [0, 0, 0, 1 / 2, 1, 1, 1] ! (i + 1))
                * (mat_at \<lparr>mrows = 2, mcols = 4, mdata = [0, 0, 1, 2, 2, 0, 3, 3]\<rparr> j (i + 1)
                   - mat_at \<lparr>mrows = 2, mcols = 4, mdata = [0, 0, 1, 2, 2, 0, 3, 3]\<rparr> j i)))"
  using bspderiv_control_points [of "\<lparr>mrows = 2, mcols = 4, mdata = [0, 0, 1, 2, 2, 0, 3, 3]\<rparr>"
      "[0, 0, 0, 1 / 2, 1, 1, 1]" 2 2]
  by (simp add: wf_matrix_def eval_nat_numeral All_less_Suc)

section \<open>factln: the cache\<close>

lemma cache_ok_cache0: "cache_ok cache0"
  by (simp add: cache_ok_def cache0_def)

lemma factln_fill_ok:
  assumes "cache_ok c" "n \<le> 100"
  shows "\<exists>c'. factln_fill n c = Ok c' \<and> cache_ok c'
    \<and> cache_ntop c' = max (cache_ntop c) n
    \<and> (\<forall>i. 0 \<le> i \<and> i \<le> cache_ntop c \<longrightarrow> cache_a c' ! nat i = cache_a c ! nat i)
    \<and> (\<forall>i. cache_ntop c < i \<and> i \<le> n \<longrightarrow> cache_a c' ! nat i = gammaln (real_of_int i + 1))"
  using assms(1)
proof (induction "nat (n - cache_ntop c)" arbitrary: c rule: less_induct)
  case less
  show ?case
  proof (cases "cache_ntop c < n")
    case False
    then have "factln_fill n c = Ok c" by (subst factln_fill.simps) simp
    then show ?thesis using False less.prems by auto
  next
    case True
    define t where "t = cache_ntop c + 1"
    define c1 where "c1 = \<lparr>cache_ntop = t, cache_a = (cache_a c)[nat t := gammaln (real_of_int t + 1)]\<rparr>"
    have p: "put (cache_a c) t (gammaln (real_of_int t + 1)) = Ok (cache_a c1)"
      using True less.prems assms(2) by (simp add: put_def cache_ok_def t_def c1_def)
    have ok1: "cache_ok c1"
      using True less.prems assms(2) by (simp add: cache_ok_def c1_def t_def)
    have "\<exists>c'. factln_fill n c1 = Ok c' \<and> cache_ok c'
      \<and> cache_ntop c' = max (cache_ntop c1) n
      \<and> (\<forall>i. 0 \<le> i \<and> i \<le> cache_ntop c1 \<longrightarrow> cache_a c' ! nat i = cache_a c1 ! nat i)
      \<and> (\<forall>i. cache_ntop c1 < i \<and> i \<le> n \<longrightarrow> cache_a c' ! nat i = gammaln (real_of_int i + 1))"
      using True ok1 by (intro less.hyps) (simp add: c1_def t_def)
    then obtain c' where c': "factln_fill n c1 = Ok c'" "cache_ok c'"
      "cache_ntop c' = max t n"
      "\<And>i. 0 \<le> i \<Longrightarrow> i \<le> t \<Longrightarrow> cache_a c' ! nat i = cache_a c1 ! nat i"
      "\<And>i. t < i \<Longrightarrow> i \<le> n \<Longrightarrow> cache_a c' ! nat i = gammaln (real_of_int i + 1)"
      by (auto simp: c1_def)
    have tl: "nat t < length (cache_a c)"
      using True less.prems assms(2) by (simp add: cache_ok_def t_def)
    have old: "cache_a c' ! nat i = cache_a c ! nat i" if "0 \<le> i" "i \<le> cache_ntop c" for i
      using c'(4) [of i] that by (simp add: c1_def t_def)
    have new: "cache_a c' ! nat i = gammaln (real_of_int i + 1)" if "cache_ntop c < i" "i \<le> n" for i
    proof (cases "i = t")
      case True
      then show ?thesis using c'(4) [of t] tl less.prems by (simp add: c1_def t_def cache_ok_def)
    next
      case False
      then show ?thesis using c'(5) [of i] that by (simp add: t_def)
    qed
    have "factln_fill n c = Ok c'"
      using True p c'(1) by (simp add: factln_fill.simps [of n c] t_def c1_def)
    moreover have "max t n = max (cache_ntop c) n" using True by (simp add: t_def)
    ultimately show ?thesis using c'(2,3) old new by auto
  qed
qed

lemma factln_fill_overflow:
  assumes "cache_ok c" "100 < n"
  shows "factln_fill n c = Fault OutOfBounds"
  using assms(1)
proof (induction "nat (100 - cache_ntop c)" arbitrary: c rule: less_induct)
  case less
  have lt: "cache_ntop c < n" using less.prems assms(2) by (simp add: cache_ok_def)
  show ?case
  proof (cases "cache_ntop c = 100")
    case True
    then have "put (cache_a c) (cache_ntop c + 1) x = Fault OutOfBounds" for x
      using less.prems by (simp add: put_def cache_ok_def)
    then show ?thesis using lt by (simp add: factln_fill.simps [of n c])
  next
    case False
    define t where "t = cache_ntop c + 1"
    define c1 where "c1 = \<lparr>cache_ntop = t, cache_a = (cache_a c)[nat t := gammaln (real_of_int t + 1)]\<rparr>"
    have p: "put (cache_a c) t (gammaln (real_of_int t + 1)) = Ok (cache_a c1)"
      using False less.prems by (simp add: put_def cache_ok_def t_def c1_def)
    have ok1: "cache_ok c1"
      using False less.prems by (simp add: cache_ok_def c1_def t_def)
    have "factln_fill n c1 = Fault OutOfBounds"
      using False less.prems ok1 by (intro less.hyps) (simp_all add: c1_def t_def cache_ok_def)
    then show ?thesis
      using lt p by (simp add: factln_fill.simps [of n c] t_def c1_def)
  qed
qed

text \<open>
  Claim C9. The cache of \<open>factln\<close> has 101 cells and its accesses are not checked. From
  a cache that calls of \<open>factln\<close> can leave (\<open>cache_ok\<close>): a call with \<open>n \<le> 100\<close> returns,
  all its accesses being in bounds, \<open>ntop\<close> does not decrease, and the cells up to the
  old \<open>ntop\<close> (those written so far) keep their values; a call with \<open>n > 100\<close> writes
  outside the array.
\<close>

theorem factln_cache:
  assumes "cache_ok c"
  shows "if n \<le> 100
    then \<exists>x c'. factln n c = Ok (x, c') \<and> cache_ok c'
      \<and> cache_ntop c \<le> cache_ntop c'
      \<and> (\<forall>i. 0 \<le> i \<and> i \<le> cache_ntop c \<longrightarrow> cache_a c' ! nat i = cache_a c ! nat i)
    else factln n c = Fault OutOfBounds"
proof (cases "n \<le> 100")
  case False
  then have "factln_fill n c = Fault OutOfBounds"
    using assms by (intro factln_fill_overflow) auto
  then show ?thesis using False by (simp add: factln_def)
next
  case True
  show ?thesis
  proof (cases "n \<le> 1")
    case small: True
    then show ?thesis using True assms by (simp add: factln_def)
  next
    case False
    obtain c' where c': "factln_fill n c = Ok c'" "cache_ok c'"
      "cache_ntop c' = max (cache_ntop c) n"
      "\<forall>i. 0 \<le> i \<and> i \<le> cache_ntop c \<longrightarrow> cache_a c' ! nat i = cache_a c ! nat i"
      using factln_fill_ok [OF assms True] by blast
    have "elem (cache_a c') n = Ok (cache_a c' ! nat n)"
      using c'(2) True False by (intro elem_in) (auto simp: cache_ok_def)
    then show ?thesis using True False c' by (simp add: factln_def)
  qed
qed

theorem factln_cache_witness:
  "cache_ok cache0
   \<and> (\<exists>x c'. factln 5 cache0 = Ok (x, c') \<and> cache_ok c'
        \<and> cache_ntop cache0 \<le> cache_ntop c'
        \<and> (\<forall>i. 0 \<le> i \<and> i \<le> cache_ntop cache0 \<longrightarrow>
              cache_a c' ! nat i = cache_a cache0 ! nat i))
   \<and> factln 101 cache0 = Fault OutOfBounds"
  using factln_cache [OF cache_ok_cache0, of 5] factln_cache [OF cache_ok_cache0, of 101]
    cache_ok_cache0
  by simp

section \<open>nrbsurfderiveval: the unweighting\<close>

lemma factln_returns:
  assumes "cache_ok c" "n \<le> 100"
  shows "\<exists>x c'. factln n c = Ok (x, c') \<and> cache_ok c'"
proof (cases "n \<le> 1")
  case True
  then show ?thesis using assms by (simp add: factln_def)
next
  case False
  obtain c' where c': "factln_fill n c = Ok c'" "cache_ok c'"
    using factln_fill_ok [OF assms] by blast
  have "elem (cache_a c') n = Ok (cache_a c' ! nat n)"
    using c'(2) assms False by (intro elem_in) (auto simp: cache_ok_def)
  then show ?thesis using False c' by (simp add: factln_def)
qed

lemma bincoeff_returns:
  assumes "cache_ok c" "n \<le> 100" "0 \<le> k" "k \<le> n"
  shows "\<exists>b c'. bincoeff n k c = Ok (b, c') \<and> cache_ok c'"
proof -
  obtain x1 c1 where 1: "factln n c = Ok (x1, c1)" "cache_ok c1"
    using factln_returns [OF assms(1,2)] by blast
  obtain x2 c2 where 2: "factln k c1 = Ok (x2, c2)" "cache_ok c2"
    using factln_returns [OF 1(2), of k] assms by auto
  obtain x3 c3 where 3: "factln (n - k) c2 = Ok (x3, c3)" "cache_ok c3"
    using factln_returns [OF 2(2), of "n - k"] assms by auto
  show ?thesis using 1 2 3 by (simp add: bincoeff_def)
qed

lemma skl_first_loop_unit:
  assumes "l \<le> 100" and W0: "\<And>j. 1 \<le> j \<Longrightarrow> j \<le> l \<Longrightarrow> mat_get wders 0 j = Ok 0"
    and "cache_ok c" "1 \<le> j"
  shows "\<exists>c'. skl_first_loop idim iu k l wders skl j v c = Ok (v, c') \<and> cache_ok c'"
  using assms(3,4)
proof (induction "nat (l + 1 - j)" arbitrary: j c rule: less_induct)
  case less
  show ?case
  proof (cases "j \<le> l")
    case False
    then show ?thesis using less.prems
      by (simp add: skl_first_loop.simps [of idim iu k l wders skl j])
  next
    case True
    obtain b c1 where b: "bincoeff l j c = Ok (b, c1)" "cache_ok c1"
      using bincoeff_returns [of c l j] less.prems assms(1) True by auto
    have "\<exists>c'. skl_first_loop idim iu k l wders skl (j + 1) v c1 = Ok (v, c') \<and> cache_ok c'"
      using True less.prems b(2) by (intro less.hyps) auto
    then show ?thesis using True b(1) W0 [of j] less.prems(2)
      by (simp add: skl_first_loop.simps [of idim iu k l wders skl j])
  qed
qed

lemma skl_v2_loop_unit:
  assumes "l \<le> 100" and Wi: "mat_get1 wders i = Ok 0"
    and "cache_ok c" "1 \<le> j"
  shows "\<exists>c'. skl_v2_loop l wders i j v2 c = Ok (v2, c') \<and> cache_ok c'"
  using assms(3,4)
proof (induction "nat (l + 1 - j)" arbitrary: j c rule: less_induct)
  case less
  show ?case
  proof (cases "j \<le> l")
    case False
    then show ?thesis using less.prems
      by (simp add: skl_v2_loop.simps [of l wders i j])
  next
    case True
    obtain b c1 where b: "bincoeff l j c = Ok (b, c1)" "cache_ok c1"
      using bincoeff_returns [of c l j] less.prems assms(1) True by auto
    have "\<exists>c'. skl_v2_loop l wders i (j + 1) v2 c1 = Ok (v2, c') \<and> cache_ok c'"
      using True less.prems b(2) by (intro less.hyps) auto
    then show ?thesis using True b(1) Wi
      by (simp add: skl_v2_loop.simps [of l wders i j])
  qed
qed

lemma skl_i_loop_unit:
  assumes "k \<le> 100" "l \<le> 100"
    and Wi0: "\<And>i. 1 \<le> i \<Longrightarrow> i \<le> k \<Longrightarrow> mat_get wders i 0 = Ok 0"
    and Wi: "\<And>i. 1 \<le> i \<Longrightarrow> i \<le> k \<Longrightarrow> mat_get1 wders i = Ok 0"
    and "cache_ok c" "1 \<le> i"
  shows "\<exists>c'. skl_i_loop idim iu k l wders skl i v c = Ok (v, c') \<and> cache_ok c'"
  using assms(5,6)
proof (induction "nat (k + 1 - i)" arbitrary: i c rule: less_induct)
  case less
  show ?case
  proof (cases "i \<le> k")
    case False
    then show ?thesis using less.prems
      by (simp add: skl_i_loop.simps [of idim iu k l wders skl i])
  next
    case True
    obtain b c1 where b: "bincoeff k i c = Ok (b, c1)" "cache_ok c1"
      using bincoeff_returns [of c k i] less.prems assms(1) True by auto
    obtain c2 where v2: "skl_v2_loop l wders i 1 0 c1 = Ok (0, c2)" "cache_ok c2"
      using skl_v2_loop_unit [of l wders i c1 1 0] assms(2) Wi [of i] True less.prems(2) b(2)
      by auto
    obtain b' c3 where b': "bincoeff k i c2 = Ok (b', c3)" "cache_ok c3"
      using bincoeff_returns [of c2 k i] less.prems assms(1) True v2(2) by auto
    have "\<exists>c'. skl_i_loop idim iu k l wders skl (i + 1) v c3 = Ok (v, c') \<and> cache_ok c'"
      using True less.prems b'(2) by (intro less.hyps) auto
    then show ?thesis using True b(1) v2(1) b'(1) Wi0 [of i] less.prems(2)
      by (simp add: skl_i_loop.simps [of idim iu k l wders skl i])
  qed
qed

lemma skl_l_loop_unit:
  assumes d: "0 \<le> k" "k \<le> d" "d \<le> 100"
    and A: "\<And>l. 0 \<le> l \<Longrightarrow> k + l \<le> d \<Longrightarrow> mat_get Aders k l = Ok (mat_at Aders (nat k) (nat l))"
    and W00: "mat_get wders 0 0 = Ok 1"
    and W0: "\<And>j. 1 \<le> j \<Longrightarrow> j \<le> d \<Longrightarrow> mat_get wders 0 j = Ok 0"
    and Wi0: "\<And>i. 1 \<le> i \<Longrightarrow> i \<le> d \<Longrightarrow> mat_get wders i 0 = Ok 0"
    and Wi: "\<And>i. 1 \<le> i \<Longrightarrow> i \<le> d \<Longrightarrow> mat_get1 wders i = Ok 0"
    and "cache_ok c" "0 \<le> l"
  shows "\<exists>skl' c'. skl_l_loop idim iu d Aders wders k l skl c = Ok (skl', c') \<and> cache_ok c'
    \<and> (\<forall>l'. l \<le> l' \<and> k + l' \<le> d \<longrightarrow> skl' (idim, k, l', iu) = mat_at Aders (nat k) (nat l'))
    \<and> (\<forall>k' l'. k' \<noteq> k \<or> l' < l \<longrightarrow> skl' (idim, k', l', iu) = skl (idim, k', l', iu))"
  using assms(9,10)
proof (induction "nat (d - k + 1 - l)" arbitrary: l skl c rule: less_induct)
  case less
  show ?case
  proof (cases "l \<le> d - k")
    case False
    then show ?thesis using less.prems
      by (simp add: skl_l_loop.simps [of idim iu d Aders wders k l])
  next
    case True
    define x where "x = mat_at Aders (nat k) (nat l)"
    have a: "mat_get Aders k l = Ok x"
      unfolding x_def using True less.prems by (intro A) auto
    obtain c1 where 1: "skl_first_loop idim iu k l wders skl 1 x c = Ok (x, c1)" "cache_ok c1"
      using skl_first_loop_unit [of l wders c 1 idim iu k skl x] W0 True d less.prems(1)
      by auto
    obtain c2 where 2: "skl_i_loop idim iu k l wders skl 1 x c1 = Ok (x, c2)" "cache_ok c2"
      using skl_i_loop_unit [of k l wders c1 1 idim iu skl x] Wi0 Wi True d 1(2)
      by auto
    have f: "fdiv x 1 = Ok x" by (simp add: fdiv_def)
    define skl1 where "skl1 = skl((idim, k, l, iu) := x)"
    have "\<exists>skl' c'. skl_l_loop idim iu d Aders wders k (l + 1) skl1 c2 = Ok (skl', c') \<and> cache_ok c'
      \<and> (\<forall>l'. l + 1 \<le> l' \<and> k + l' \<le> d \<longrightarrow> skl' (idim, k, l', iu) = mat_at Aders (nat k) (nat l'))
      \<and> (\<forall>k' l'. k' \<noteq> k \<or> l' < l + 1 \<longrightarrow> skl' (idim, k', l', iu) = skl1 (idim, k', l', iu))"
      using True less.prems 2(2) by (intro less.hyps) auto
    then obtain skl' c' where r: "skl_l_loop idim iu d Aders wders k (l + 1) skl1 c2 = Ok (skl', c')"
      "cache_ok c'"
      "\<And>l'. l + 1 \<le> l' \<Longrightarrow> k + l' \<le> d \<Longrightarrow> skl' (idim, k, l', iu) = mat_at Aders (nat k) (nat l')"
      "\<And>k' l'. k' \<noteq> k \<or> l' < l + 1 \<Longrightarrow> skl' (idim, k', l', iu) = skl1 (idim, k', l', iu)"
      by blast
    have set: "skl' (idim, k, l', iu) = mat_at Aders (nat k) (nat l')"
      if "l \<le> l'" "k + l' \<le> d" for l'
    proof (cases "l' = l")
      case True
      then show ?thesis using r(4) [of k l] by (simp add: skl1_def x_def)
    next
      case False
      then show ?thesis using r(3) [of l'] that by simp
    qed
    have keep: "skl' (idim, k', l', iu) = skl (idim, k', l', iu)" if "k' \<noteq> k \<or> l' < l" for k' l'
      using r(4) [of k' l'] that by (auto simp: skl1_def)
    have "skl_l_loop idim iu d Aders wders k l skl c = Ok (skl', c')"
      using True a 1(1) 2(1) W00 f r(1)
      by (simp add: skl_l_loop.simps [of idim iu d Aders wders k l] skl1_def)
    then show ?thesis using r(2) set keep by blast
  qed
qed

lemma skl_k_loop_unit:
  assumes d: "d \<le> 100"
    and A: "\<And>k l. 0 \<le> k \<Longrightarrow> 0 \<le> l \<Longrightarrow> k + l \<le> d \<Longrightarrow>
              mat_get Aders k l = Ok (mat_at Aders (nat k) (nat l))"
    and W00: "mat_get wders 0 0 = Ok 1"
    and W0: "\<And>j. 1 \<le> j \<Longrightarrow> j \<le> d \<Longrightarrow> mat_get wders 0 j = Ok 0"
    and Wi0: "\<And>i. 1 \<le> i \<Longrightarrow> i \<le> d \<Longrightarrow> mat_get wders i 0 = Ok 0"
    and Wi: "\<And>i. 1 \<le> i \<Longrightarrow> i \<le> d \<Longrightarrow> mat_get1 wders i = Ok 0"
    and "cache_ok c" "0 \<le> k"
  shows "\<exists>skl' c'. skl_k_loop idim iu d Aders wders k skl c = Ok (skl', c') \<and> cache_ok c'
    \<and> (\<forall>k' l'. k \<le> k' \<and> 0 \<le> l' \<and> k' + l' \<le> d \<longrightarrow>
          skl' (idim, k', l', iu) = mat_at Aders (nat k') (nat l'))
    \<and> (\<forall>k' l'. k' < k \<longrightarrow> skl' (idim, k', l', iu) = skl (idim, k', l', iu))"
  using assms(7,8)
proof (induction "nat (d + 1 - k)" arbitrary: k skl c rule: less_induct)
  case less
  show ?case
  proof (cases "k \<le> d")
    case False
    then show ?thesis using less.prems
      by (simp add: skl_k_loop.simps [of idim iu d Aders wders k])
  next
    case True
    have "\<exists>skl' c'. skl_l_loop idim iu d Aders wders k 0 skl c = Ok (skl', c') \<and> cache_ok c'
      \<and> (\<forall>l'. 0 \<le> l' \<and> k + l' \<le> d \<longrightarrow> skl' (idim, k, l', iu) = mat_at Aders (nat k) (nat l'))
      \<and> (\<forall>k' l'. k' \<noteq> k \<or> l' < 0 \<longrightarrow> skl' (idim, k', l', iu) = skl (idim, k', l', iu))"
      using True d less.prems A W00 W0 Wi0 Wi by (intro skl_l_loop_unit) auto
    then obtain skl1 c1 where 1: "skl_l_loop idim iu d Aders wders k 0 skl c = Ok (skl1, c1)"
      "cache_ok c1"
      "\<And>l'. 0 \<le> l' \<Longrightarrow> k + l' \<le> d \<Longrightarrow> skl1 (idim, k, l', iu) = mat_at Aders (nat k) (nat l')"
      "\<And>k' l'. k' \<noteq> k \<Longrightarrow> skl1 (idim, k', l', iu) = skl (idim, k', l', iu)"
      by blast
    have "\<exists>skl' c'. skl_k_loop idim iu d Aders wders (k + 1) skl1 c1 = Ok (skl', c') \<and> cache_ok c'
      \<and> (\<forall>k' l'. k + 1 \<le> k' \<and> 0 \<le> l' \<and> k' + l' \<le> d \<longrightarrow>
            skl' (idim, k', l', iu) = mat_at Aders (nat k') (nat l'))
      \<and> (\<forall>k' l'. k' < k + 1 \<longrightarrow> skl' (idim, k', l', iu) = skl1 (idim, k', l', iu))"
      using True less.prems 1(2) by (intro less.hyps) auto
    then obtain skl' c' where r: "skl_k_loop idim iu d Aders wders (k + 1) skl1 c1 = Ok (skl', c')"
      "cache_ok c'"
      "\<And>k' l'. k + 1 \<le> k' \<Longrightarrow> 0 \<le> l' \<Longrightarrow> k' + l' \<le> d \<Longrightarrow>
            skl' (idim, k', l', iu) = mat_at Aders (nat k') (nat l')"
      "\<And>k' l'. k' < k + 1 \<Longrightarrow> skl' (idim, k', l', iu) = skl1 (idim, k', l', iu)"
      by blast
    have set: "skl' (idim, k', l', iu) = mat_at Aders (nat k') (nat l')"
      if "k \<le> k'" "0 \<le> l'" "k' + l' \<le> d" for k' l'
    proof (cases "k' = k")
      case True
      then show ?thesis using r(4) [of k l'] 1(3) [of l'] that by simp
    next
      case False
      then show ?thesis using r(3) [of k' l'] that by simp
    qed
    have keep: "skl' (idim, k', l', iu) = skl (idim, k', l', iu)" if "k' < k" for k' l'
      using r(4) [of k' l'] 1(4) [of k' l'] that by simp
    have "skl_k_loop idim iu d Aders wders k skl c = Ok (skl', c')"
      using True 1(1) r(1) by (simp add: skl_k_loop.simps [of idim iu d Aders wders k])
    then show ?thesis using r(2) set keep by blast
  qed
qed

lemma bincoeff_beyond_cache:
  assumes "cache_ok c" "100 < n"
  shows "bincoeff n k c = Fault OutOfBounds"
proof -
  have "factln_fill n c = Fault OutOfBounds"
    using assms by (rule factln_fill_overflow)
  then show ?thesis using assms(2) by (simp add: bincoeff_def factln_def)
qed

lemma skl_l_loop_beyond_cache:
  assumes d: "100 < d"
    and A: "\<And>l. 0 \<le> l \<Longrightarrow> l \<le> d \<Longrightarrow> mat_get Aders 0 l = Ok (mat_at Aders 0 (nat l))"
    and W00: "mat_get wders 0 0 = Ok 1"
    and W0: "\<And>j. 1 \<le> j \<Longrightarrow> j \<le> d \<Longrightarrow> mat_get wders 0 j = Ok 0"
    and "cache_ok c" "0 \<le> l" "l \<le> 101"
  shows "skl_l_loop idim iu d Aders wders 0 l skl c = Fault OutOfBounds"
  using assms(5,6,7)
proof (induction "nat (101 - l)" arbitrary: l skl c rule: less_induct)
  case less
  define x where "x = mat_at Aders 0 (nat l)"
  have a: "mat_get Aders 0 l = Ok x"
    unfolding x_def using d less.prems by (intro A) auto
  show ?case
  proof (cases "l = 101")
    case True
    have b: "bincoeff l 1 c = Fault OutOfBounds"
      using True less.prems(1) by (intro bincoeff_beyond_cache) auto
    have l1: "1 \<le> l" "l \<le> d - 0" using True d by auto
    have "skl_first_loop idim iu 0 l wders skl 1 x c = Fault OutOfBounds"
      using b l1(1) by (subst skl_first_loop.simps) simp
    then show ?thesis using a l1(2)
      by (subst skl_l_loop.simps) simp
  next
    case False
    then have l100: "l \<le> 100" using less.prems by simp
    obtain c1 where 1: "skl_first_loop idim iu 0 l wders skl 1 x c = Ok (x, c1)" "cache_ok c1"
      using skl_first_loop_unit [of l wders c 1 idim iu 0 skl x] W0 l100 d less.prems(1)
      by auto
    obtain c2 where 2: "skl_i_loop idim iu 0 l wders skl 1 x c1 = Ok (x, c2)" "cache_ok c2"
      using skl_i_loop_unit [of 0 l wders c1 1 idim iu skl x] l100 1(2)
      by auto
    have f: "fdiv x 1 = Ok x" by (simp add: fdiv_def)
    have "skl_l_loop idim iu d Aders wders 0 (l + 1) (skl((idim, 0, l, iu) := x)) c2
        = Fault OutOfBounds"
      using False less.prems 2(2) by (intro less.hyps) auto
    then show ?thesis
      using a 1(1) 2(1) W00 f d l100
      by (simp add: skl_l_loop.simps [of idim iu d Aders wders 0 l])
  qed
qed

lemma unweighting_beyond_cache:
  assumes "100 < d" "cache_ok c"
    and "wf_matrix Aders" "mrows Aders = nat d + 1" "mcols Aders = nat d + 1"
    and "wf_matrix wders" "mrows wders = nat d + 1" "mcols wders = nat d + 1"
    and "mat_at wders 0 0 = 1"
    and "\<forall>k<nat d + 1. \<forall>l<nat d + 1. 0 < k + l \<longrightarrow> mat_at wders k l = 0"
  shows "skl_k_loop idim iu d Aders wders 0 skl c = Fault OutOfBounds"
proof -
  have A: "mat_get Aders 0 l = Ok (mat_at Aders 0 (nat l))" if "0 \<le> l" "l \<le> d" for l
    using mat_get_in [of Aders 0 l] assms that by auto
  have W: "mat_get wders 0 l = Ok (mat_at wders 0 (nat l))" if "0 \<le> l" "l \<le> d" for l
    using mat_get_in [of wders 0 l] assms that by auto
  have W00: "mat_get wders 0 0 = Ok 1"
    using W [of 0] assms by simp
  have W0: "mat_get wders 0 j = Ok 0" if "1 \<le> j" "j \<le> d" for j
    using W [of j] assms(10) that by simp
  have "skl_l_loop idim iu d Aders wders 0 0 skl c = Fault OutOfBounds"
    using assms(1,2) A W00 W0 by (intro skl_l_loop_beyond_cache) auto
  then show ?thesis using assms(1)
    by (simp add: skl_k_loop.simps [of idim iu d Aders wders 0])
qed

text \<open>
  Claim C6, as stated: for every surface whose weight field is 1 everywhere the
  unweighting is the identity, \<open>skl[i][k][l] = Aders[k][l]\<close> for every \<open>(k, l)\<close> with
  \<open>k + l \<le> d\<close>. The binomial coefficients of the loops go through the cache of \<open>factln\<close>,
  which has 101 cells: for the order \<open>d = 101\<close>, with \<open>wders[0][0] = 1\<close> and all other
  weight derivatives 0, the run reaches \<open>bincoeff (101, 1)\<close> at \<open>k = 0\<close>, \<open>l = 101\<close> and
  writes outside the array instead of returning \<open>skl\<close>.
\<close>

theorem unweighting_order_101_counterexample:
  "mat_at \<lparr>mrows = 102, mcols = 102, mdata = 1 # replicate 10403 0\<rparr> 0 0 = 1
   \<and> set (tl (mdata \<lparr>mrows = 102, mcols = 102, mdata = 1 # replicate 10403 0\<rparr>)) = {0}
   \<and> skl_k_loop 0 0 101 (new_matrix 102 102 0)
         \<lparr>mrows = 102, mcols = 102, mdata = 1 # replicate 10403 0\<rparr> 0 (\<lambda>x. 0) cache0
       = Fault OutOfBounds"
proof -
  define W where "W = \<lparr>mrows = 102, mcols = 102, mdata = 1 # replicate 10403 (0 :: real)\<rparr>"
  have zero: "mat_at W k l = 0" if "k < 102" "l < 102" "0 < k + l" for k l
  proof -
    have "k + 102 * l - 1 < 10403" using that by simp
    then show ?thesis using that(3) by (simp add: W_def mat_at_def nth_Cons')
  qed
  have "skl_k_loop 0 0 101 (new_matrix 102 102 0) W 0 (\<lambda>x. 0) cache0 = Fault OutOfBounds"
  proof (rule unweighting_beyond_cache)
    show "(100 :: int) < 101" by simp
    show "cache_ok cache0" by (rule cache_ok_cache0)
    show "wf_matrix (new_matrix 102 102 0)" "mrows (new_matrix 102 102 0) = nat 101 + 1"
      "mcols (new_matrix 102 102 0) = nat 101 + 1"
      by (simp_all add: new_matrix_def wf_matrix_def)
    show "wf_matrix W" "mrows W = nat 101 + 1" "mcols W = nat 101 + 1" "mat_at W 0 0 = 1"
      by (simp_all add: W_def wf_matrix_def mat_at_def)
    show "\<forall>k<nat 101 + 1. \<forall>l<nat 101 + 1. 0 < k + l \<longrightarrow> mat_at W k l = 0"
      using zero by simp
  qed
  then show ?thesis by (simp add: W_def mat_at_def)
qed

text \<open>
  Claim C6, amended: for an order \<open>d \<le> 100\<close>. Let the weight derivatives be those of a
  weight field that is 1 everywhere: \<open>wders[0][0] = 1\<close> and \<open>wders[k][l] = 0\<close> for
  \<open>k + l \<ge> 1\<close>, with \<open>Aders\<close> and \<open>wders\<close> of size \<open>(d + 1) \<times> (d + 1)\<close>. Then the loops
  return, and for every spatial dimension and every \<open>(k, l)\<close> with \<open>k + l \<le> d\<close> the entry
  \<open>skl[idim][k][l]\<close> is \<open>Aders[k][l]\<close>.
\<close>

theorem unweighting_unit_weights:
  assumes "0 \<le> d" "d \<le> 100" "cache_ok c"
    and "wf_matrix Aders" "mrows Aders = nat d + 1" "mcols Aders = nat d + 1"
    and "wf_matrix wders" "mrows wders = nat d + 1" "mcols wders = nat d + 1"
    and "mat_at wders 0 0 = 1"
    and "\<forall>k<nat d + 1. \<forall>l<nat d + 1. 0 < k + l \<longrightarrow> mat_at wders k l = 0"
  shows "\<exists>skl' c'. skl_k_loop idim iu d Aders wders 0 skl c = Ok (skl', c')
    \<and> (\<forall>k l. 0 \<le> k \<and> 0 \<le> l \<and> k + l \<le> d \<longrightarrow>
          skl' (idim, k, l, iu) = mat_at Aders (nat k) (nat l))"
proof -
  have A: "mat_get Aders k l = Ok (mat_at Aders (nat k) (nat l))"
    if "0 \<le> k" "0 \<le> l" "k + l \<le> d" for k l
    using assms that by (intro mat_get_in) auto
  have W: "mat_get wders k l = Ok (mat_at wders (nat k) (nat l))"
    if "0 \<le> k" "0 \<le> l" "k \<le> d" "l \<le> d" for k l
    using assms that by (intro mat_get_in) auto
  have W00: "mat_get wders 0 0 = Ok 1"
    using W [of 0 0] assms by simp
  have W0: "mat_get wders 0 j = Ok 0" if "1 \<le> j" "j \<le> d" for j
    using W [of 0 j] assms(11) that by simp
  have Wi0: "mat_get wders i 0 = Ok 0" if "1 \<le> i" "i \<le> d" for i
    using W [of i 0] assms(11) that by simp
  have Wi: "mat_get1 wders i = Ok 0" if "1 \<le> i" "i \<le> d" for i
    using Wi0 [OF that] by (simp add: mat_get_def mat_get1_def)
  have "\<exists>skl' c'. skl_k_loop idim iu d Aders wders 0 skl c = Ok (skl', c') \<and> cache_ok c'
    \<and> (\<forall>k' l'. 0 \<le> k' \<and> 0 \<le> l' \<and> k' + l' \<le> d \<longrightarrow>
          skl' (idim, k', l', iu) = mat_at Aders (nat k') (nat l'))
    \<and> (\<forall>k' l'. k' < 0 \<longrightarrow> skl' (idim, k', l', iu) = skl (idim, k', l', iu))"
    using assms(2,3) A W00 W0 Wi0 Wi by (intro skl_k_loop_unit) auto
  then show ?thesis by blast
qed

theorem unweighting_unit_weights_witness:
  "(0 :: int) \<le> 1 \<and> (1 :: int) \<le> 100 \<and> cache_ok cache0
   \<and> wf_matrix \<lparr>mrows = 2, mcols = 2, mdata = [5, 7, 11, 13]\<rparr>
   \<and> mrows \<lparr>mrows = 2, mcols = 2, mdata = [5, 7, 11, 13]\<rparr> = nat 1 + 1
   \<and> mcols \<lparr>mrows = 2, mcols = 2, mdata = [5, 7, 11, 13]\<rparr> = nat 1 + 1
   \<and> wf_matrix \<lparr>mrows = 2, mcols = 2, mdata = [1, 0, 0, 0]\<rparr>
   \<and> mrows \<lparr>mrows = 2, mcols = 2, mdata = [1, 0, 0, 0]\<rparr> = nat 1 + 1
   \<and> mcols \<lparr>mrows = 2, mcols = 2, mdata = [1, 0, 0, 0]\<rparr> = nat 1 + 1
   \<and> mat_at \<lparr>mrows = 2, mcols = 2, mdata = [1, 0, 0, 0]\<rparr> 0 0 = 1
   \<and> mat_at \<lparr>mrows = 2, mcols = 2, mdata = [1, 0, 0, 0]\<rparr> 0 1 = 0
   \<and> mat_at \<lparr>mrows = 2, mcols = 2, mdata = [1, 0, 0, 0]\<rparr> 1 0 = 0
   \<and> mat_at \<lparr>mrows = 2, mcols = 2, mdata = [1, 0, 0, 0]\<rparr> 1 1 = 0
   \<and> (\<exists>skl' c'. skl_k_loop 2 0 1 \<lparr>mrows = 2, mcols = 2, mdata = [5, 7, 11, 13]\<rparr>
          \<lparr>mrows = 2, mcols = 2, mdata = [1, 0, 0, 0]\<rparr> 0 (\<lambda>x. 0) cache0 = Ok (skl', c')
        \<and> (\<forall>k l. 0 \<le> k \<and> 0 \<le> l \<and> k + l \<le> 1 \<longrightarrow>
              skl' (2, k, l, 0)
                = mat_at \<lparr>mrows = 2, mcols = 2, mdata = [5, 7, 11, 13]\<rparr> (nat k) (nat l)))"
  using unweighting_unit_weights [where d = 1 and c = cache0
      and Aders = "\<lparr>mrows = 2, mcols = 2, mdata = [5, 7, 11, 13]\<rparr>"
      and wders = "\<lparr>mrows = 2, mcols = 2, mdata = [1, 0, 0, 0]\<rparr>"
      and idim = 2 and iu = 0 and skl = "\<lambda>x. 0"] cache_ok_cache0
  by (simp add: wf_matrix_def mat_at_def All_less_Suc)

lemma bincoeff_1_1: "bincoeff 1 1 c = Ok (1, c)"
  by (simp add: bincoeff_def factln_def)

text \<open>
  Claim C1 says that the loops compute the formula of the specification, with the cross
  term \<open>v2 = \<Sum>j = 1..l. binom(l,j) * wders[r][j]\<close>. The source reads \<^verbatim>\<open>wders(i)\<close>, the
  element \<open>i\<close> of the data, which is \<open>wders[i][0]\<close>. For \<open>d = 2\<close> and
  \<open>Aders = wders\<close> with the entries \<open>(0,0)\<close> and \<open>(1,1)\<close> equal to 1 and the others 0 (a
  coordinate that is 1 everywhere under the weight \<open>1 + (u - u0) * (v - v0)\<close>, at
  \<open>(u0, v0)\<close>): the loop gives \<open>v2 = 0\<close> for \<open>r = 1\<close>, \<open>l = 1\<close> where the formula has 1, and
  the run ends with \<open>skl[1][1] = 1\<close> where the formula, from the entries of lower order
  of the same run, gives 0.
\<close>

theorem unweighting_cross_term_differs:
  "skl_v2_loop 1 \<lparr>mrows = 3, mcols = 3, mdata = [1, 0, 0, 0, 1, 0, 0, 0, 0]\<rparr> 1 1 0 cache0
     = Ok (0, cache0)
   \<and> spec_cross_term \<lparr>mrows = 3, mcols = 3, mdata = [1, 0, 0, 0, 1, 0, 0, 0, 0]\<rparr> 1 1 = 1
   \<and> (\<exists>skl c. skl_k_loop 0 0 2 \<lparr>mrows = 3, mcols = 3, mdata = [1, 0, 0, 0, 1, 0, 0, 0, 0]\<rparr>
          \<lparr>mrows = 3, mcols = 3, mdata = [1, 0, 0, 0, 1, 0, 0, 0, 0]\<rparr> 0 (\<lambda>x. 0) cache0
          = Ok (skl, c)
        \<and> skl (0, 0, 0, 0) = 1 \<and> skl (0, 0, 1, 0) = 0 \<and> skl (0, 1, 0, 0) = 0
        \<and> skl (0, 1, 1, 0) = 1
        \<and> spec_unweighted_entry \<lparr>mrows = 3, mcols = 3, mdata = [1, 0, 0, 0, 1, 0, 0, 0, 0]\<rparr>
             \<lparr>mrows = 3, mcols = 3, mdata = [1, 0, 0, 0, 1, 0, 0, 0, 0]\<rparr>
             (\<lambda>k l. skl (0, int k, int l, 0)) 1 1 = 0)"
proof -
  have "skl_v2_loop 1 \<lparr>mrows = 3, mcols = 3, mdata = [1, 0, 0, 0, 1, 0, 0, 0, 0]\<rparr> 1 1 0 cache0
     = Ok (0, cache0)"
    by (simp add: skl_v2_loop.simps bincoeff_1_1 mat_get1_def elem_def)
  moreover have "spec_cross_term \<lparr>mrows = 3, mcols = 3, mdata = [1, 0, 0, 0, 1, 0, 0, 0, 0]\<rparr> 1 1 = 1"
    by (simp add: spec_cross_term_def mat_at_def)
  moreover have "\<exists>skl c. skl_k_loop 0 0 2 \<lparr>mrows = 3, mcols = 3, mdata = [1, 0, 0, 0, 1, 0, 0, 0, 0]\<rparr>
          \<lparr>mrows = 3, mcols = 3, mdata = [1, 0, 0, 0, 1, 0, 0, 0, 0]\<rparr> 0 (\<lambda>x. 0) cache0
          = Ok (skl, c)
        \<and> skl (0, 0, 0, 0) = 1 \<and> skl (0, 0, 1, 0) = 0 \<and> skl (0, 1, 0, 0) = 0
        \<and> skl (0, 1, 1, 0) = 1
        \<and> spec_unweighted_entry \<lparr>mrows = 3, mcols = 3, mdata = [1, 0, 0, 0, 1, 0, 0, 0, 0]\<rparr>
             \<lparr>mrows = 3, mcols = 3, mdata = [1, 0, 0, 0, 1, 0, 0, 0, 0]\<rparr>
             (\<lambda>k l. skl (0, int k, int l, 0)) 1 1 = 0"
    by (simp add: skl_k_loop.simps skl_l_loop.simps skl_i_loop.simps skl_v2_loop.simps
        skl_first_loop.simps bincoeff_def factln_def factln_fill.simps cache0_def
        mat_get_def mat_get1_def elem_def put_def fdiv_def
        spec_unweighted_entry_def spec_cross_term_def mat_at_def)
  ultimately show ?thesis by blast
qed

text \<open>
  The first loop over \<open>j\<close> reads \<open>skl[k][l]\<close>, which is still 0, where the formula has
  \<open>skl[k][l-j]\<close>: for \<open>d = 1\<close>, \<open>Aders = wders\<close> with the entries \<open>(0,0)\<close> and \<open>(0,1)\<close> equal
  to 1, the run ends with \<open>skl[0][1] = 1\<close> where the formula gives 0.
\<close>

lemma unweighting_first_loop_differs:
  "\<exists>skl c. skl_k_loop 0 0 1 \<lparr>mrows = 2, mcols = 2, mdata = [1, 0, 1, 0]\<rparr>
      \<lparr>mrows = 2, mcols = 2, mdata = [1, 0, 1, 0]\<rparr> 0 (\<lambda>x. 0) cache0 = Ok (skl, c)
    \<and> skl (0, 0, 0, 0) = 1 \<and> skl (0, 0, 1, 0) = 1
    \<and> spec_unweighted_entry \<lparr>mrows = 2, mcols = 2, mdata = [1, 0, 1, 0]\<rparr>
         \<lparr>mrows = 2, mcols = 2, mdata = [1, 0, 1, 0]\<rparr>
         (\<lambda>k l. skl (0, int k, int l, 0)) 0 1 = 0"
  by (simp add: skl_k_loop.simps skl_l_loop.simps skl_i_loop.simps skl_v2_loop.simps
      skl_first_loop.simps bincoeff_def factln_def cache0_def
      mat_get_def mat_get1_def elem_def put_def fdiv_def
      spec_unweighted_entry_def spec_cross_term_def mat_at_def)

end
